theory Spec2Isabelle
  imports Complex_Main
begin

section \<open>Python values and failures\<close>

text \<open>
  The exceptions that the functions of \<^verbatim>\<open>ca_functions.py\<close> can raise, as values.
  \<open>RangeError\<close> is \<^verbatim>\<open>Exception("rule number out of range")\<close>, \<open>LookupError\<close> is
  \<^verbatim>\<open>Exception("could not find state ... in table")\<close>, \<open>ValidationError\<close> is
  \<^verbatim>\<open>Exception("quiescent state must be a number in {0,...,k - 1}")\<close>; \<open>ValueError\<close>,
  \<open>IndexError\<close>, \<open>ZeroDivisionError\<close> and \<open>OverflowError\<close> are the exceptions of Python and numpy themselves.
\<close>

datatype error =
  ValueError | IndexError | RangeError | LookupError | ValidationError | ZeroDivisionError
  | OverflowError

text \<open>
  Indexing a Python sequence or a one-dimensional numpy array with an integer:
  a negative index counts from the right end, anything outside raises \<open>IndexError\<close>.
\<close>

definition py_index :: "'a list \<Rightarrow> int \<Rightarrow> error + 'a" where
  "py_index xs i =
     (if 0 \<le> i \<and> i < int (length xs) then Inr (xs ! nat i)
      else if i < 0 \<and> - int (length xs) \<le> i then Inr (xs ! nat (int (length xs) + i))
      else Inl IndexError)"

text \<open>The slices \<^verbatim>\<open>xs[i:]\<close> and \<^verbatim>\<open>xs[:j]\<close>: negative bounds count from the end, and
  every bound is clamped to the sequence.\<close>

definition slice_from :: "'a list \<Rightarrow> int \<Rightarrow> 'a list" where
  "slice_from xs i = (if i < 0 then drop (nat (int (length xs) + i)) xs else drop (nat i) xs)"

definition slice_to :: "'a list \<Rightarrow> int \<Rightarrow> 'a list" where
  "slice_to xs j = (if j < 0 then take (nat (int (length xs) + j)) xs else take (nat j) xs)"

section \<open>Radix codec\<close>

text \<open>
  \<^verbatim>\<open>
  def bits_to_int(bits):
      total = 0
      for shift, j in enumerate(bits[::-1]):
          if j:
              total += 1 << shift
      return total
  \<close>
\<close>

fun bits_to_int_loop :: "(nat \<times> int) list \<Rightarrow> int \<Rightarrow> int" where
  "bits_to_int_loop [] tot = tot"
| "bits_to_int_loop ((shift, j) # rest) tot =
     bits_to_int_loop rest (if j \<noteq> 0 then tot + 2 ^ shift else tot)"

definition bits_to_int :: "int list \<Rightarrow> int" where
  "bits_to_int bits = bits_to_int_loop (enumerate 0 (rev bits)) 0"

text \<open>
  The digits of \<^verbatim>\<open>bin(num)[2:]\<close> for a non-negative \<open>num\<close>, most significant first,
  without leading zeros; \<^verbatim>\<open>bin(0)\<close> is \<^verbatim>\<open>'0b0'\<close>.
\<close>

fun bin_digits :: "nat \<Rightarrow> int list" where
  "bin_digits n = (if n < 2 then [int n] else bin_digits (n div 2) @ [int (n mod 2)])"

declare bin_digits.simps [simp del]

text \<open>
  \<^verbatim>\<open>
  def int_to_bits(num, num_digits):
      converted = list(map(int, bin(num)[2:]))
      return np.pad(converted, (num_digits - len(converted), 0), 'constant')
  \<close>
  For a negative \<open>num\<close> the text after the first two characters of \<^verbatim>\<open>bin(num)\<close>
  starts with \<^verbatim>\<open>b\<close>, on which \<^verbatim>\<open>int\<close> raises \<open>ValueError\<close>; a negative pad width
  makes \<^verbatim>\<open>np.pad\<close> raise \<open>ValueError\<close>.
\<close>

definition int_to_bits :: "int \<Rightarrow> int \<Rightarrow> error + int list" where
  "int_to_bits num num_digits =
     (if num < 0 then Inl ValueError
      else
        let converted = bin_digits (nat num) in
        if num_digits - int (length converted) < 0 then Inl ValueError
        else Inr (replicate (nat (num_digits - int (length converted))) 0 @ converted))"

text \<open>
  The reading of the specification: the most-significant-first expansion of \<open>v\<close> in
  exactly \<open>w\<close> binary digits, and the value of a digit sequence read most significant
  first.
\<close>

definition msb_digits :: "nat \<Rightarrow> int \<Rightarrow> int list" where
  "msb_digits w v = map (\<lambda>j. (v div 2 ^ (w - 1 - j)) mod 2) [0..<w]"

definition msb_value :: "int list \<Rightarrow> int" where
  "msb_value ds = foldl (\<lambda>acc d. 2 * acc + d) 0 ds"

definition binary :: "int list \<Rightarrow> bool" where
  "binary ds = list_all (\<lambda>d. d = 0 \<or> d = 1) ds"

section \<open>Rule evaluators\<close>

text \<open>
  \<^verbatim>\<open>
  def nks_rule(state, rule):
      state_int = bits_to_int(state)
      n = 2**len(state)
      rule_bin_array = int_to_bits(rule, n)
      return rule_bin_array[(n-1) - state_int]

  def number_rule(state, rule):
      state_int = bits_to_int(state)
      rule_bin_array = int_to_bits(rule, 2**len(state))
      return rule_bin_array[state_int]
  \<close>
\<close>

definition nks_rule :: "int list \<Rightarrow> int \<Rightarrow> error + int" where
  "nks_rule state rule =
     (let state_int = bits_to_int state;
          n = 2 ^ length state
      in case int_to_bits rule n of
           Inl e \<Rightarrow> Inl e
         | Inr rule_bin_array \<Rightarrow> py_index rule_bin_array ((n - 1) - state_int))"

definition number_rule :: "int list \<Rightarrow> int \<Rightarrow> error + int" where
  "number_rule state rule =
     (let state_int = bits_to_int state
      in case int_to_bits rule (2 ^ length state) of
           Inl e \<Rightarrow> Inl e
         | Inr rule_bin_array \<Rightarrow> py_index rule_bin_array state_int)"

text \<open>The elementwise complement of a binary neighbourhood.\<close>

definition complement :: "int list \<Rightarrow> int list" where
  "complement state = map (\<lambda>b. 1 - b) state"

text \<open>
  \<^verbatim>\<open>np.base_repr(number, base)\<close> of numpy, which \<open>totalistic_rule\<close> and
  \<open>random_rule_table\<close> call: it refuses a base above 36 or below 2, collects the digits of
  \<open>abs(number)\<close> from the least significant one, appends the sign, and returns the
  reversed text, or \<^verbatim>\<open>'0'\<close> when nothing was collected.
\<close>

definition digit_chars :: string where
  "digit_chars = ''0123456789ABCDEFGHIJKLMNOPQRSTUVWXYZ''"

fun base_repr_loop :: "nat \<Rightarrow> nat \<Rightarrow> string" where
  "base_repr_loop base num =
     (if num = 0 \<or> base < 2 then []
      else digit_chars ! (num mod base) # base_repr_loop base (num div base))"

declare base_repr_loop.simps [simp del]

definition base_repr :: "int \<Rightarrow> int \<Rightarrow> error + string" where
  "base_repr number base =
     (if base > int (length digit_chars) then Inl ValueError
      else if base < 2 then Inl ValueError
      else
        let res = base_repr_loop (nat base) (nat \<bar>number\<bar>);
            res = (if number < 0 then res @ ''-'' else res)
        in Inr (rev (if res = [] then ''0'' else res)))"

text \<open>
  \<^verbatim>\<open>str.zfill(width)\<close>: zeros on the left up to the width, after a leading sign.
\<close>

definition zfill :: "string \<Rightarrow> int \<Rightarrow> string" where
  "zfill s width =
     (if width \<le> int (length s) then s
      else
        let fill = replicate (nat (width - int (length s))) CHR ''0'' in
        case s of
          [] \<Rightarrow> fill
        | c # rest \<Rightarrow> if c = CHR ''+'' \<or> c = CHR ''-'' then c # fill @ rest else fill @ s)"

text \<open>
  \<^verbatim>\<open>int(c, base)\<close> on a text of one character: the value of the digit, in either case of
  a letter, when it is below the base, and \<open>ValueError\<close> otherwise.
\<close>

definition lower_chars :: string where
  "lower_chars = ''0123456789abcdefghijklmnopqrstuvwxyz''"

fun find_index_from :: "nat \<Rightarrow> char \<Rightarrow> string \<Rightarrow> nat option" where
  "find_index_from i c [] = None"
| "find_index_from i c (d # ds) = (if c = d then Some i else find_index_from (Suc i) c ds)"

definition digit_value :: "char \<Rightarrow> nat option" where
  "digit_value c =
     (case find_index_from 0 c digit_chars of
        Some v \<Rightarrow> Some v
      | None \<Rightarrow> find_index_from 0 c lower_chars)"

definition py_int_char :: "char \<Rightarrow> int \<Rightarrow> error + int" where
  "py_int_char c base =
     (case digit_value c of
        None \<Rightarrow> Inl ValueError
      | Some v \<Rightarrow> if int v < base then Inr (int v) else Inl ValueError)"

text \<open>
  \<^verbatim>\<open>
  def totalistic_rule(state, k, rule):
      rule_string = np.base_repr(rule, base=k).zfill(3*k - 2)
      if len(rule_string) > 3*k - 2:
          raise Exception("rule number out of range")
      state_sum = sum(state)
      return int(rule_string[(3*k - 3) - state_sum], k)
  \<close>
\<close>

definition totalistic_rule :: "int list \<Rightarrow> int \<Rightarrow> int \<Rightarrow> error + int" where
  "totalistic_rule state k rule =
     (case base_repr rule k of
        Inl e \<Rightarrow> Inl e
      | Inr repr \<Rightarrow>
          let rule_string = zfill repr (3 * k - 2) in
          if int (length rule_string) > 3 * k - 2 then Inl RangeError
          else
            let state_sum = sum_list state in
            case py_index rule_string ((3 * k - 3) - state_sum) of
              Inl e \<Rightarrow> Inl e
            | Inr c \<Rightarrow> py_int_char c k)"


text \<open>The text that \<open>base_repr\<close> returns for a non-negative number, and its zero fill.\<close>

definition repr_digits :: "nat \<Rightarrow> nat \<Rightarrow> string" where
  "repr_digits b n = (if base_repr_loop b n = [] then ''0'' else base_repr_loop b n)"

section \<open>Evolver\<close>

text \<open>
  \<^verbatim>\<open>
  def index_strides(arr, window_size):
      arr = np.concatenate((arr[-window_size//2+1:], arr, arr[:window_size//2]))
      shape = arr.shape[:-1] + (arr.shape[-1] - window_size + 1, window_size)
      strides = arr.strides + (arr.strides[-1],)
      return np.lib.stride_tricks.as_strided(arr, shape=shape, strides=strides)
  \<close>
  In Python \<^verbatim>\<open>-window_size//2+1\<close> is \<^verbatim>\<open>((-window_size)//2)+1\<close>, with the division
  rounding down. The strided view has one row for each start position \<open>i\<close>, holding the
  \<open>window_size\<close> elements from \<open>i\<close> on; a negative number of rows or columns makes
  \<^verbatim>\<open>as_strided\<close> raise \<open>ValueError\<close>.
\<close>

definition index_strides :: "'a list \<Rightarrow> int \<Rightarrow> error + 'a list list" where
  "index_strides arr window_size =
     (let arr = slice_from arr ((- window_size) div 2 + 1) @ arr @ slice_to arr (window_size div 2);
          rows = int (length arr) - window_size + 1
      in if rows < 0 \<or> window_size < 0 then Inl ValueError
         else Inr (map (\<lambda>i. take (nat window_size) (drop i arr)) [0..<nat rows]))"

text \<open>
  The body of the loop of \<open>evolve\<close>, in its three statements:
  \<^verbatim>\<open>
      strides = index_strides(np.arange(len(cells)), 2*r + 1)
      states = cells[strides]
      array[i] = np.array([apply_rule(s, c) for c, s in enumerate(states)])
  \<close>
  \<open>window_states\<close> is \<open>states\<close>: the windows of indices, each index replaced by the state
  of that cell. \<open>apply_row\<close> is the list comprehension. The radius is a number of cells,
  a natural number.
\<close>

definition window_states :: "'a list \<Rightarrow> nat \<Rightarrow> error + 'a list list" where
  "window_states cells r =
     (case index_strides [0..<length cells] (2 * int r + 1) of
        Inl e \<Rightarrow> Inl e
      | Inr strides \<Rightarrow> Inr (map (map (\<lambda>j. cells ! j)) strides))"

definition apply_row :: "('a list \<Rightarrow> nat \<Rightarrow> 'b) \<Rightarrow> 'a list list \<Rightarrow> 'b list" where
  "apply_row apply_rule states = map (\<lambda>(c, s). apply_rule s c) (enumerate 0 states)"

text \<open>
  The grid is \<^verbatim>\<open>np.zeros((n_steps, cols), dtype=np.int)\<close>: its cells are machine integers
  of 64 bits (the C \<^verbatim>\<open>long\<close> of Linux and macOS). An assignment to a row of the grid takes
  three steps of numpy.

  \<^item> \<^verbatim>\<open>np.array\<close> of a list of Python integers chooses the type of the new array from the
    values: 64-bit signed when all fit, 64-bit unsigned when all are in \<open>[0, 2^64)\<close>,
    double precision floats when signed and unsigned values are mixed (and for the empty
    list), and Python objects when a value is outside \<open>[-2^63, 2^64)\<close>.
  \<^item> The value is broadcast to the row of \<open>cols\<close> cells: a value of that length is taken as
    it is, a value of length one is repeated over the row, anything else raises
    \<open>ValueError\<close> before any cell is written.
  \<^item> Each element is converted to the 64-bit cell: a signed value is stored, an unsigned
    value wraps around, an object outside \<open>[-2^63, 2^63)\<close> raises \<open>OverflowError\<close>. The
    conversion of a float depends on the rounding of the value to a double and, beyond
    the range, on the processor: it is the parameter \<open>float_cast\<close> of the model.
\<close>

definition in_int64 :: "int \<Rightarrow> bool" where
  "in_int64 v = (- (2 ^ 63) \<le> v \<and> v < 2 ^ 63)"

datatype dtype = Int64 | UInt64 | Float64 | Object

definition result_dtype :: "int list \<Rightarrow> dtype" where
  "result_dtype vals =
     (if vals = [] then Float64
      else if list_all in_int64 vals then Int64
      else if list_all (\<lambda>v. 0 \<le> v \<and> v < 2 ^ 64) vals then UInt64
      else if list_all (\<lambda>v. - (2 ^ 63) \<le> v \<and> v < 2 ^ 64) vals then Float64
      else Object)"

definition broadcast_row :: "nat \<Rightarrow> 'a list \<Rightarrow> error + 'a list" where
  "broadcast_row cols vals =
     (if length vals = cols then Inr vals
      else if length vals = 1 then Inr (replicate cols (hd vals))
      else Inl ValueError)"

fun cast_int64 :: "(int \<Rightarrow> int) \<Rightarrow> dtype \<Rightarrow> int \<Rightarrow> error + int" where
  "cast_int64 float_cast Int64 v = Inr v"
| "cast_int64 float_cast UInt64 v = Inr (if v < 2 ^ 63 then v else v - 2 ^ 64)"
| "cast_int64 float_cast Float64 v = Inr (float_cast v)"
| "cast_int64 float_cast Object v = (if in_int64 v then Inr v else Inl OverflowError)"

fun cast_row :: "(int \<Rightarrow> int) \<Rightarrow> dtype \<Rightarrow> int list \<Rightarrow> error + int list" where
  "cast_row float_cast dt [] = Inr []"
| "cast_row float_cast dt (v # vs) =
     (case cast_int64 float_cast dt v of
        Inl e \<Rightarrow> Inl e
      | Inr w \<Rightarrow>
          (case cast_row float_cast dt vs of
             Inl e \<Rightarrow> Inl e
           | Inr ws \<Rightarrow> Inr (w # ws)))"

definition assign_row :: "(int \<Rightarrow> int) \<Rightarrow> nat \<Rightarrow> int list \<Rightarrow> error + int list" where
  "assign_row float_cast cols vals =
     (case broadcast_row cols vals of
        Inl e \<Rightarrow> Inl e
      | Inr row \<Rightarrow> cast_row float_cast (result_dtype vals) row)"

definition next_row ::
  "(int \<Rightarrow> int) \<Rightarrow> (int list \<Rightarrow> nat \<Rightarrow> int) \<Rightarrow> nat \<Rightarrow> nat \<Rightarrow> int list \<Rightarrow> error + int list"
where
  "next_row float_cast apply_rule r cols cells =
     (case window_states cells r of
        Inl e \<Rightarrow> Inl e
      | Inr states \<Rightarrow> assign_row float_cast cols (apply_row apply_rule states))"

text \<open>
  \<^verbatim>\<open>
  def evolve(cellular_automaton, n_steps, apply_rule, r=1):
      _, cols = cellular_automaton.shape
      array = np.zeros((n_steps, cols), dtype=np.int)
      array[0] = cellular_automaton
      for i in range(1, n_steps):
          cells = array[i - 1]
          ...
      return array
  \<close>
  The initial configuration has the shape \<open>(1, cols)\<close> and is given here by the integers of
  its one row, as \<^verbatim>\<open>np.array\<close> builds the array from them; the assignment to
  \<^verbatim>\<open>array[0]\<close> converts it like every other row. With \<open>n_steps = 0\<close> that assignment
  raises \<open>IndexError\<close>. In the loop \<open>i - 1\<close> is always a row of the array, since \<open>i\<close> runs
  from 1 to \<open>n_steps - 1\<close>.
\<close>

fun evolve_loop ::
  "(int \<Rightarrow> int) \<Rightarrow> (int list \<Rightarrow> nat \<Rightarrow> int) \<Rightarrow> nat \<Rightarrow> nat \<Rightarrow> nat list \<Rightarrow> int list list
   \<Rightarrow> error + int list list"
where
  "evolve_loop float_cast apply_rule r cols [] array = Inr array"
| "evolve_loop float_cast apply_rule r cols (i # rest) array =
     (case next_row float_cast apply_rule r cols (array ! (i - 1)) of
        Inl e \<Rightarrow> Inl e
      | Inr row \<Rightarrow> evolve_loop float_cast apply_rule r cols rest (array[i := row]))"

definition evolve ::
  "(int \<Rightarrow> int) \<Rightarrow> int list \<Rightarrow> nat \<Rightarrow> (int list \<Rightarrow> nat \<Rightarrow> int) \<Rightarrow> nat
   \<Rightarrow> error + int list list"
where
  "evolve float_cast cellular_automaton n_steps apply_rule r =
     (let cols = length cellular_automaton;
          array = replicate n_steps (replicate cols 0)
      in if n_steps = 0 then Inl IndexError
         else
           case assign_row float_cast cols cellular_automaton of
             Inl e \<Rightarrow> Inl e
           | Inr row \<Rightarrow> evolve_loop float_cast apply_rule r cols [1..<n_steps] (array[0 := row]))"

text \<open>
  The reading of the specification: the neighbourhood of radius \<open>r\<close> centred at \<open>c\<close>, with
  the indices taken modulo the length of the row.
\<close>

definition neighbourhood :: "nat \<Rightarrow> 'a list \<Rightarrow> nat \<Rightarrow> 'a list" where
  "neighbourhood r row c =
     map (\<lambda>j. row ! nat ((int c + int j - int r) mod int (length row))) [0..<2 * r + 1]"

text \<open>
  Two rule functions for the examples: one returns the index of the cell, one returns
  \<open>2^63\<close> everywhere. \<open>indefinite_cast\<close> is one conversion of floats for the examples: it
  keeps a value of the 64-bit range and gives \<open>-2^63\<close> beyond it.
\<close>

definition cell_index_rule :: "int list \<Rightarrow> nat \<Rightarrow> int" where
  "cell_index_rule s c = int c"

definition top_bit_rule :: "int list \<Rightarrow> nat \<Rightarrow> int" where
  "top_bit_rule s c = 2 ^ 63"

definition indefinite_cast :: "int \<Rightarrow> int" where
  "indefinite_cast v = (if in_int64 v then v else - (2 ^ 63))"


section \<open>Random rule table generator\<close>

text \<open>
  The table is a Python dictionary from texts to states: a list of entries in the order of
  insertion, where a store to a key already present replaces its value in place.
  \<open>map_of\<close> is the lookup.
\<close>

fun dict_set :: "('k \<times> 'v) list \<Rightarrow> 'k \<Rightarrow> 'v \<Rightarrow> ('k \<times> 'v) list" where
  "dict_set [] key v = [(key, v)]"
| "dict_set ((key', v') # rest) key v =
     (if key' = key then (key, v) # rest else (key', v') # dict_set rest key v)"

text \<open>
  Python floats are double precision numbers; a finite one is taken here as the rational
  number it denotes. \<open>round_double x\<close> is the double nearest to \<open>x\<close>, with ties to the even
  significand: the unit in the last place is \<open>2 ^ (e - 52)\<close> for the binary exponent \<open>e\<close> of
  \<open>x\<close>, and \<open>2 ^ (- 1074)\<close> below the normal range. The operations of the generator are
  the conversion of an integer (\<open>OverflowError\<close> beyond the doubles), the division of
  floats (\<open>ZeroDivisionError\<close> on zero), the subtraction, and the true division of two
  integers, which Python rounds once, from the exact quotient.
\<close>

function bit_length :: "int \<Rightarrow> nat" where
  "bit_length n = (if n \<le> 0 then 0 else Suc (bit_length (n div 2)))"
  by pat_completeness auto
termination
  by (relation "measure nat") auto

declare bit_length.simps [simp del]

definition pow2 :: "int \<Rightarrow> rat" where
  "pow2 e = (if 0 \<le> e then 2 ^ nat e else 1 / 2 ^ nat (- e))"

definition binary_exponent :: "rat \<Rightarrow> int" where
  "binary_exponent x =
     (let (a, b) = quotient_of x;
          e = int (bit_length \<bar>a\<bar>) - int (bit_length b)
      in if pow2 e \<le> \<bar>x\<bar> then e else e - 1)"

definition round_half_even :: "rat \<Rightarrow> int" where
  "round_half_even x =
     (let f = \<lfloor>x\<rfloor>; d = x - of_int f
      in if d < 1 / 2 then f
         else if 1 / 2 < d then f + 1
         else if even f then f else f + 1)"

definition round_double :: "rat \<Rightarrow> rat" where
  "round_double x =
     (if x = 0 then 0
      else
        let e = max (binary_exponent x) (- 1022);
            ulp = pow2 (e - 52)
        in of_int (round_half_even (x / ulp)) * ulp)"

definition float_of_int :: "int \<Rightarrow> error + rat" where
  "float_of_int n =
     (let x = round_double (of_int n)
      in if pow2 1024 \<le> \<bar>x\<bar> then Inl OverflowError else Inr x)"

definition float_div :: "rat \<Rightarrow> rat \<Rightarrow> error + rat" where
  "float_div a b = (if b = 0 then Inl ZeroDivisionError else Inr (round_double (a / b)))"

definition float_sub :: "rat \<Rightarrow> rat \<Rightarrow> rat" where
  "float_sub a b = round_double (a - b)"

definition int_true_div :: "int \<Rightarrow> int \<Rightarrow> error + rat" where
  "int_true_div a b =
     (if b = 0 then Inl ZeroDivisionError
      else
        let x = round_double (of_int a / of_int b)
        in if pow2 1024 \<le> \<bar>x\<bar> then Inl OverflowError else Inr x)"

text \<open>
  The random draws of one call, as a parameter of the model: the value that
  \<^verbatim>\<open>np.random.randint\<close> takes, and for the \<open>t\<close>-th neighbourhood that reaches the random
  branch the value of \<^verbatim>\<open>random.random()\<close> and the position that \<^verbatim>\<open>random.choice\<close> picks.
  \<^verbatim>\<open>randint(k)\<close> is a value in \<open>[0, k)\<close> and raises \<open>ValueError\<close> for \<open>k \<le> 0\<close>;
  \<^verbatim>\<open>random.choice\<close> returns an element of its list and raises \<open>IndexError\<close> on the empty
  list. \<open>lambda_val\<close>, when given, and the values of \<^verbatim>\<open>random.random()\<close> are finite
  floats.
\<close>

record random_source =
  randint_draw :: nat
  uniform_draw :: "nat \<Rightarrow> rat"
  choice_draw :: "nat \<Rightarrow> nat"

definition randint :: "int \<Rightarrow> nat \<Rightarrow> error + int" where
  "randint k d = (if k \<le> 0 then Inl ValueError else Inr (int d mod k))"

definition random_choice :: "'a list \<Rightarrow> nat \<Rightarrow> error + 'a" where
  "random_choice xs d = (if xs = [] then Inl IndexError else Inr (xs ! (d mod length xs)))"

text \<open>
  \<^verbatim>\<open>
  states = []
  n = 2*r + 1
  for i in range(0, k**n):
      states.append(np.base_repr(i, k).zfill(n))
  \<close>
\<close>

fun neighbourhood_states :: "int \<Rightarrow> int \<Rightarrow> nat list \<Rightarrow> error + string list" where
  "neighbourhood_states k n [] = Inr []"
| "neighbourhood_states k n (i # rest) =
     (case base_repr (int i) k of
        Inl e \<Rightarrow> Inl e
      | Inr repr \<Rightarrow>
          (case neighbourhood_states k n rest of
             Inl e \<Rightarrow> Inl e
           | Inr states \<Rightarrow> Inr (zfill repr n # states)))"

text \<open>
  The state of the second loop: the table, the running count, and the number of
  neighbourhoods that have taken the random branch so far.
  \<^verbatim>\<open>
  for state in states:
      if strong_quiescence and len(set(state)) == 1:
          next_state = int(state[0], k)
          if next_state == quiescent_state: quiescent_state_count += 1
      else:
          state_reversed = state[::-1]
          if isotropic and state_reversed in table:
              next_state = table[state_reversed]
              if next_state == quiescent_state: quiescent_state_count += 1
          else:
              if random.random() < (1. - lambda_val):
                  next_state = quiescent_state
                  quiescent_state_count += 1
              else:
                  next_state = random.choice(other_states)
      table[state] = next_state
  \<close>
\<close>

record table_state =
  table :: "(string \<times> int) list"
  quiescent_state_count :: nat
  draws_used :: nat

fun table_loop ::
  "int \<Rightarrow> int \<Rightarrow> rat \<Rightarrow> bool \<Rightarrow> bool \<Rightarrow> int list \<Rightarrow> random_source
   \<Rightarrow> string list \<Rightarrow> table_state \<Rightarrow> error + table_state"
where
  "table_loop k q lam strong isotropic other_states rnd [] st = Inr st"
| "table_loop k q lam strong isotropic other_states rnd (state # rest) st =
     (if strong \<and> length (remdups state) = 1 then
        (case py_int_char (hd state) k of
           Inl e \<Rightarrow> Inl e
         | Inr next_state \<Rightarrow>
             table_loop k q lam strong isotropic other_states rnd rest
               (st\<lparr>table := dict_set (table st) state next_state,
                   quiescent_state_count :=
                     (if next_state = q then quiescent_state_count st + 1
                      else quiescent_state_count st)\<rparr>))
      else
        (case (if isotropic then map_of (table st) (rev state) else None) of
           Some next_state \<Rightarrow>
             table_loop k q lam strong isotropic other_states rnd rest
               (st\<lparr>table := dict_set (table st) state next_state,
                   quiescent_state_count :=
                     (if next_state = q then quiescent_state_count st + 1
                      else quiescent_state_count st)\<rparr>)
         | None \<Rightarrow>
             if uniform_draw rnd (draws_used st) < float_sub 1 lam then
               table_loop k q lam strong isotropic other_states rnd rest
                 (st\<lparr>table := dict_set (table st) state q,
                     quiescent_state_count := quiescent_state_count st + 1,
                     draws_used := draws_used st + 1\<rparr>)
             else
               (case random_choice other_states (choice_draw rnd (draws_used st)) of
                  Inl e \<Rightarrow> Inl e
                | Inr next_state \<Rightarrow>
                    table_loop k q lam strong isotropic other_states rnd rest
                      (st\<lparr>table := dict_set (table st) state next_state,
                          draws_used := draws_used st + 1\<rparr>))))"

text \<open>
  \<^verbatim>\<open>
  def random_rule_table(k, r, lambda_val=None, quiescent_state=None,
                        strong_quiescence=False, isotropic=False):
      ...
      table = {}
      if lambda_val is None:
          lambda_val = 1. - (1. / k)
      if quiescent_state is None:
          quiescent_state = np.random.randint(k, dtype=np.int)
      if not (0 <= quiescent_state <= k - 1):
          raise Exception("quiescent state must be a number in {0,...,k - 1}")
      other_states = [x for x in range(0, k) if x != quiescent_state]
      quiescent_state_count = 0
      ...
      actual_lambda_val = (k**n - quiescent_state_count) / k**n
      return table, actual_lambda_val, quiescent_state
  \<close>
  The radius is a natural number. The default of \<open>lambda_val\<close> and the returned value are
  computed in floats.
\<close>

definition default_lambda :: "int \<Rightarrow> error + rat" where
  "default_lambda k =
     (case float_of_int k of
        Inl e \<Rightarrow> Inl e
      | Inr kf \<Rightarrow>
          (case float_div 1 kf of
             Inl e \<Rightarrow> Inl e
           | Inr d \<Rightarrow> Inr (float_sub 1 d)))"

definition random_rule_table ::
  "int \<Rightarrow> nat \<Rightarrow> rat option \<Rightarrow> int option \<Rightarrow> bool \<Rightarrow> bool \<Rightarrow> random_source
   \<Rightarrow> error + ((string \<times> int) list \<times> rat \<times> int)"
where
  "random_rule_table k r lambda_val quiescent_state strong_quiescence isotropic rnd =
     (let n = 2 * int r + 1 in
      case neighbourhood_states k n [0..<nat (k ^ nat n)] of
        Inl e \<Rightarrow> Inl e
      | Inr states \<Rightarrow>
          (case (case lambda_val of None \<Rightarrow> default_lambda k | Some l \<Rightarrow> Inr l) of
             Inl e \<Rightarrow> Inl e
           | Inr lam \<Rightarrow>
               (case (case quiescent_state of
                        None \<Rightarrow> randint k (randint_draw rnd)
                      | Some q \<Rightarrow> Inr q) of
                  Inl e \<Rightarrow> Inl e
                | Inr q \<Rightarrow>
                    if \<not> (0 \<le> q \<and> q \<le> k - 1) then Inl ValidationError
                    else
                      let other_states = filter (\<lambda>x. x \<noteq> q) (map int [0..<nat k]) in
                      case table_loop k q lam strong_quiescence isotropic other_states rnd states
                             \<lparr>table = [], quiescent_state_count = 0, draws_used = 0\<rparr> of
                        Inl e \<Rightarrow> Inl e
                      | Inr st \<Rightarrow>
                          (case int_true_div (k ^ nat n - int (quiescent_state_count st))
                                  (k ^ nat n) of
                             Inl e \<Rightarrow> Inl e
                           | Inr actual_lambda_val \<Rightarrow>
                               Inr (table st, actual_lambda_val, q)))))"

text \<open>One fixed sequence of draws, for the examples.\<close>

definition fixed_source :: random_source where
  "fixed_source = \<lparr>randint_draw = 0, uniform_draw = (\<lambda>t. if even t then 0 else 1),
     choice_draw = (\<lambda>t. t)\<rparr>"


text \<open>
  The reading of the specification: the text of \<open>i\<close> in \<open>m\<close> digits of base \<open>b\<close>, the set of
  all neighbourhood texts of \<open>m\<close> digits below \<open>b\<close>, a quiescent state that is absent or in
  range, the number of entries of a table with the quiescent value, and a table that
  gives a text and its reverse the same value whenever both are keys.
\<close>

definition digit_string :: "nat \<Rightarrow> nat \<Rightarrow> nat \<Rightarrow> string" where
  "digit_string b m i = map (\<lambda>p. digit_chars ! ((i div b ^ (m - 1 - p)) mod b)) [0..<m]"

definition neighbourhood_strings :: "nat \<Rightarrow> nat \<Rightarrow> string set" where
  "neighbourhood_strings b m = {s. length s = m \<and> (\<forall>c\<in>set s. \<exists>d<b. c = digit_chars ! d)}"

definition valid_quiescent :: "int \<Rightarrow> int option \<Rightarrow> bool" where
  "valid_quiescent k quiescent_state =
     (case quiescent_state of None \<Rightarrow> True | Some q \<Rightarrow> 0 \<le> q \<and> q \<le> k - 1)"

definition quiescent_entries :: "int \<Rightarrow> (string \<times> int) list \<Rightarrow> nat" where
  "quiescent_entries q t = length (filter (\<lambda>entry. snd entry = q) t)"

definition mirror_symmetric :: "(string \<times> int) list \<Rightarrow> bool" where
  "mirror_symmetric t =
     (\<forall>s v w. map_of t s = Some v \<and> map_of t (rev s) = Some w \<longrightarrow> w = v)"

section \<open>Properties of the radix codec\<close>

lemma bits_to_int_loop_shift:
  "bits_to_int_loop (enumerate k xs) t = t + 2 ^ k * bits_to_int_loop (enumerate 0 xs) 0"
proof (induction xs arbitrary: k t)
  case Nil
  show ?case by simp
next
  case (Cons x xs)
  have a: "bits_to_int_loop (enumerate (Suc k) xs) t' =
      t' + 2 ^ Suc k * bits_to_int_loop (enumerate 0 xs) 0" for t'
    by (rule Cons.IH)
  have b: "bits_to_int_loop (enumerate (Suc 0) xs) t' =
      t' + 2 * bits_to_int_loop (enumerate 0 xs) 0" for t'
    using Cons.IH [of "Suc 0" t'] by simp
  show ?case by (simp add: a b algebra_simps)
qed

lemma bits_to_int_Nil: "bits_to_int [] = 0"
  by (simp add: bits_to_int_def)

lemma bits_to_int_snoc:
  "bits_to_int (bits @ [b]) = 2 * bits_to_int bits + (if b \<noteq> 0 then 1 else 0)"
  using bits_to_int_loop_shift [of "Suc 0" "rev bits"]
  by (simp add: bits_to_int_def)

lemma bits_to_int_append:
  "bits_to_int (xs @ ys) = bits_to_int xs * 2 ^ length ys + bits_to_int ys"
proof (induction ys rule: rev_induct)
  case Nil
  show ?case by (simp add: bits_to_int_Nil)
next
  case (snoc y ys)
  have "bits_to_int (xs @ ys @ [y]) = bits_to_int ((xs @ ys) @ [y])" by simp
  also have "\<dots> = 2 * bits_to_int (xs @ ys) + (if y \<noteq> 0 then 1 else 0)"
    by (rule bits_to_int_snoc)
  finally show ?case
    by (simp add: snoc.IH bits_to_int_snoc algebra_simps)
qed

lemma bits_to_int_msb_value: "binary ds \<Longrightarrow> bits_to_int ds = msb_value ds"
proof (induction ds rule: rev_induct)
  case Nil
  show ?case by (simp add: bits_to_int_Nil msb_value_def)
next
  case (snoc d ds)
  then have "binary ds" and "d = 0 \<or> d = 1" by (auto simp: binary_def)
  with snoc.IH show ?case
    by (auto simp: bits_to_int_snoc msb_value_def)
qed

lemma bits_to_int_bounds: "0 \<le> bits_to_int ds \<and> bits_to_int ds < 2 ^ length ds"
proof (induction ds rule: rev_induct)
  case Nil
  show ?case by (simp add: bits_to_int_Nil)
next
  case (snoc d ds)
  then show ?case by (auto simp: bits_to_int_snoc)
qed

lemma msb_digits_length: "length (msb_digits w v) = w"
  by (simp add: msb_digits_def)

lemma msb_digits_nth: "j < w \<Longrightarrow> msb_digits w v ! j = (v div 2 ^ (w - 1 - j)) mod 2"
  by (simp add: msb_digits_def)

lemma msb_digits_binary: "binary (msb_digits w v)"
  by (auto simp: binary_def msb_digits_def list_all_iff)

lemma msb_digits_Suc: "msb_digits (Suc w) v = msb_digits w (v div 2) @ [v mod 2]"
proof (rule nth_equalityI)
  show "length (msb_digits (Suc w) v) = length (msb_digits w (v div 2) @ [v mod 2])"
    by (simp add: msb_digits_length)
next
  fix j assume "j < length (msb_digits (Suc w) v)"
  then have j: "j < Suc w" by (simp add: msb_digits_length)
  show "msb_digits (Suc w) v ! j = (msb_digits w (v div 2) @ [v mod 2]) ! j"
  proof (cases "j < w")
    case True
    then have e: "w - j = Suc (w - 1 - j)" by simp
    have "v div 2 ^ (w - j) = v div 2 div 2 ^ (w - 1 - j)"
      unfolding e by (simp add: zdiv_zmult2_eq)
    with True j show ?thesis
      by (simp add: msb_digits_nth nth_append msb_digits_length)
  next
    case False
    with j have "j = w" by simp
    then show ?thesis
      by (simp add: msb_digits_nth nth_append msb_digits_length)
  qed
qed

lemma bits_to_int_msb_digits: "bits_to_int (msb_digits w v) = v mod 2 ^ w"
proof (induction w arbitrary: v)
  case 0
  show ?case by (simp add: msb_digits_def bits_to_int_Nil)
next
  case (Suc w)
  have m: "v mod 2 \<noteq> 0 \<Longrightarrow> v mod 2 = 1" by presburger
  have "bits_to_int (msb_digits (Suc w) v) = 2 * ((v div 2) mod 2 ^ w) + v mod 2"
    using m by (auto simp: msb_digits_Suc bits_to_int_snoc Suc.IH)
  also have "\<dots> = v mod 2 ^ Suc w"
    by (simp add: zmod_zmult2_eq)
  finally show ?case .
qed

lemma bin_digits_length_le: "n < 2 ^ w \<Longrightarrow> 1 \<le> w \<Longrightarrow> length (bin_digits n) \<le> w"
proof (induction n arbitrary: w rule: bin_digits.induct)
  case (1 n)
  show ?case
  proof (cases "n < 2")
    case True
    with "1.prems" show ?thesis by (simp add: bin_digits.simps [of n])
  next
    case False
    from "1.prems" obtain w' where w: "w = Suc w'" by (cases w) auto
    with False "1.prems" have "1 \<le> w'" by (cases w') auto
    moreover from w "1.prems" have "n div 2 < 2 ^ w'" by auto
    ultimately have "length (bin_digits (n div 2)) \<le> w'"
      using "1.IH" False by simp
    with False w show ?thesis by (simp add: bin_digits.simps [of n])
  qed
qed

lemma bin_digits_small: "n < 2 \<Longrightarrow> bin_digits n = [int n]"
  by (subst bin_digits.simps) simp

lemma bin_digits_large:
  "\<not> n < 2 \<Longrightarrow> bin_digits n = bin_digits (n div 2) @ [int (n mod 2)]"
  by (subst bin_digits.simps) simp

lemma msb_digits_zero: "msb_digits w 0 = replicate w 0"
  by (rule nth_equalityI) (simp_all add: msb_digits_def)

lemma pad_bin_digits:
  "n < 2 ^ w \<Longrightarrow> 1 \<le> w \<Longrightarrow>
   replicate (w - length (bin_digits n)) 0 @ bin_digits n = msb_digits w (int n)"
proof (induction w arbitrary: n)
  case 0
  then show ?case by simp
next
  case (Suc w)
  have step: "msb_digits (Suc w) (int n) = msb_digits w (int (n div 2)) @ [int (n mod 2)]"
    by (simp add: msb_digits_Suc zdiv_int zmod_int)
  show ?case
  proof (cases "n < 2")
    case True
    then have z: "n div 2 = 0" and m: "n mod 2 = n" by simp_all
    have "replicate (Suc w - length (bin_digits n)) 0 @ bin_digits n = replicate w 0 @ [int n]"
      using True by (simp add: bin_digits_small)
    also have "\<dots> = msb_digits (Suc w) (int n)"
      unfolding step z m by (simp add: msb_digits_zero)
    finally show ?thesis .
  next
    case False
    with Suc.prems have w: "1 \<le> w" by (cases w) auto
    from Suc.prems have h: "n div 2 < 2 ^ w" by auto
    have ih: "replicate (w - length (bin_digits (n div 2))) 0 @ bin_digits (n div 2)
        = msb_digits w (int (n div 2))"
      using Suc.IH [OF h w] .
    have le: "length (bin_digits (n div 2)) \<le> w"
      using bin_digits_length_le [OF h w] .
    have "replicate (Suc w - length (bin_digits n)) 0 @ bin_digits n
        = (replicate (w - length (bin_digits (n div 2))) 0 @ bin_digits (n div 2)) @ [int (n mod 2)]"
      using False by (simp add: bin_digits_large)
    also have "\<dots> = msb_digits (Suc w) (int n)"
      unfolding ih step ..
    finally show ?thesis .
  qed
qed

lemma int_to_bits_msb_digits:
  assumes "1 \<le> w" and "0 \<le> v" and "v < 2 ^ w"
  shows "int_to_bits v (int w) = Inr (msb_digits w v)"
proof -
  from assms have n: "nat v < 2 ^ w"
    by (simp add: nat_less_iff)
  have le: "length (bin_digits (nat v)) \<le> w"
    using bin_digits_length_le [OF n assms(1)] .
  have "replicate (w - length (bin_digits (nat v))) 0 @ bin_digits (nat v)
      = msb_digits w (int (nat v))"
    using pad_bin_digits [OF n assms(1)] .
  moreover have "nat (int w - int (length (bin_digits (nat v)))) = w - length (bin_digits (nat v))"
    by simp
  ultimately show ?thesis
    using assms(2) le by (simp add: int_to_bits_def Let_def)
qed

text \<open>
  C6. Radix round trip in base 2: for every width \<open>w \<ge> 1\<close> and every \<open>v\<close> with
  \<open>0 \<le> v < 2 ^ w\<close>, \<open>int_to_bits v w\<close> returns a sequence of exactly \<open>w\<close> digits, each
  0 or 1, whose digit at position \<open>j\<close> is the binary digit of weight \<open>2 ^ (w - 1 - j)\<close> of
  \<open>v\<close> (so it is zero padded on the left and most significant first, and it is \<open>w\<close>
  zeros for \<open>v = 0\<close>), and \<open>bits_to_int\<close> of it is \<open>v\<close> again.
\<close>

theorem radix_round_trip:
  assumes "1 \<le> w" and "0 \<le> v" and "v < 2 ^ w"
  shows "\<exists>bits. int_to_bits v (int w) = Inr bits \<and> bits_to_int bits = v
           \<and> length bits = w \<and> binary bits
           \<and> (\<forall>j<w. bits ! j = (v div 2 ^ (w - 1 - j)) mod 2)
           \<and> (v = 0 \<longrightarrow> bits = replicate w 0)"
proof -
  have r: "int_to_bits v (int w) = Inr (msb_digits w v)"
    using assms by (rule int_to_bits_msb_digits)
  have "bits_to_int (msb_digits w v) = v"
    using assms by (simp add: bits_to_int_msb_digits)
  moreover have "v = 0 \<longrightarrow> msb_digits w v = replicate w 0"
    by (auto simp: msb_digits_def intro!: nth_equalityI)
  ultimately show ?thesis
    using r by (simp add: msb_digits_length msb_digits_binary msb_digits_nth)
qed

theorem radix_round_trip_witness:
  "\<exists>bits. int_to_bits 5 (int 4) = Inr bits \<and> bits_to_int bits = 5
           \<and> length bits = 4 \<and> binary bits
           \<and> (\<forall>j<4. bits ! j = (5 div 2 ^ (4 - 1 - j)) mod 2)
           \<and> ((5::int) = 0 \<longrightarrow> bits = replicate 4 0)"
  using radix_round_trip [of 4 5] by simp

section \<open>Properties of the rule evaluators\<close>

lemma py_index_nat: "i < length xs \<Longrightarrow> py_index xs (int i) = Inr (xs ! i)"
  by (simp add: py_index_def)

lemma rule_expansion:
  assumes "0 \<le> rule" and "rule < 2 ^ (2 ^ L)"
  shows "int_to_bits rule (2 ^ L) = Inr (msb_digits (2 ^ L) rule)"
proof -
  have "int_to_bits rule (int (2 ^ L)) = Inr (msb_digits (2 ^ L) rule)"
    using assms by (intro int_to_bits_msb_digits) simp_all
  then show ?thesis by simp
qed

lemma state_int_nat:
  "bits_to_int state = int (nat (bits_to_int state)) \<and> nat (bits_to_int state) < 2 ^ length state"
  using bits_to_int_bounds [of state] by (simp add: nat_less_iff)

lemma number_rule_index:
  assumes "0 \<le> rule" and "rule < 2 ^ (2 ^ length state)"
  shows "number_rule state rule
    = Inr (msb_digits (2 ^ length state) rule ! nat (bits_to_int state))"
proof -
  obtain s where s: "bits_to_int state = int s" "s < 2 ^ length state"
    using state_int_nat [of state] by blast
  show ?thesis
    using s by (simp add: number_rule_def rule_expansion [OF assms] py_index_nat msb_digits_length)
qed

lemma nks_rule_index:
  assumes "0 \<le> rule" and "rule < 2 ^ (2 ^ length state)"
  shows "nks_rule state rule
    = Inr (msb_digits (2 ^ length state) rule ! (2 ^ length state - 1 - nat (bits_to_int state)))"
proof -
  obtain s where s: "bits_to_int state = int s" "s < 2 ^ length state"
    using state_int_nat [of state] by blast
  have "(2::int) ^ length state - 1 - int s = int (2 ^ length state - 1 - s)"
    using s(2) by (simp add: of_nat_diff)
  moreover have "2 ^ length state - 1 - s < (2::nat) ^ length state"
    using s(2) by simp
  ultimately show ?thesis
    using s by (simp add: nks_rule_def Let_def rule_expansion [OF assms] py_index_nat msb_digits_length
        del: of_nat_diff of_nat_power)
qed

lemma nks_rule_bit:
  assumes "0 \<le> rule" and "rule < 2 ^ (2 ^ length state)"
  shows "nks_rule state rule = Inr ((rule div 2 ^ nat (bits_to_int state)) mod 2)"
proof -
  obtain s where s: "bits_to_int state = int s" "s < 2 ^ length state"
    using state_int_nat [of state] by blast
  have "2 ^ length state - 1 - (2 ^ length state - 1 - s) = s"
    using s(2) by simp
  then show ?thesis
    using s by (simp add: nks_rule_index [OF assms] msb_digits_nth)
qed

lemma bits_to_int_complement:
  "binary state \<Longrightarrow> bits_to_int (complement state) = 2 ^ length state - 1 - bits_to_int state"
proof (induction state rule: rev_induct)
  case Nil
  show ?case by (simp add: complement_def bits_to_int_Nil)
next
  case (snoc d ds)
  then have b: "binary ds" and d: "d = 0 \<or> d = 1" by (auto simp: binary_def)
  have "complement (ds @ [d]) = complement ds @ [1 - d]" by (simp add: complement_def)
  with snoc.IH [OF b] d show ?case
    by (auto simp: bits_to_int_snoc)
qed

lemma complement_length: "length (complement state) = length state"
  by (simp add: complement_def)

lemma not_palindrome:
  assumes "xs \<noteq> rev xs"
  shows "\<exists>i<length xs. xs ! i \<noteq> xs ! (length xs - 1 - i)"
proof (rule ccontr)
  assume n: "\<not> ?thesis"
  have "xs = rev xs"
  proof (rule nth_equalityI)
    show "length xs = length (rev xs)" by simp
  next
    fix i assume i: "i < length xs"
    with n have "xs ! i = xs ! (length xs - 1 - i)" by blast
    also have "\<dots> = rev xs ! i" using i by (simp only: rev_nth) simp
    finally show "xs ! i = rev xs ! i" .
  qed
  with assms show False by blast
qed

lemma msb_value_replicate_ones: "msb_value (replicate L 1) = 2 ^ L - 1"
proof -
  have "foldl (\<lambda>acc d. 2 * acc + d) a (replicate L (1::int)) = 2 ^ L * a + 2 ^ L - 1" for a
    by (induction L arbitrary: a) (simp_all add: algebra_simps)
  from this [of 0] show ?thesis by (simp add: msb_value_def)
qed

lemma binary_replicate_ones: "binary (replicate L 1)"
  by (simp add: binary_def list_all_iff)

text \<open>
  C4. NKS decoding: for a binary neighbourhood of length \<open>L \<ge> 1\<close> whose value read most
  significant first is \<open>s\<close>, and a rule number in \<open>[0, 2 ^ (2 ^ L))\<close>, \<open>nks_rule\<close> returns
  the digit at position \<open>2 ^ L - 1 - s\<close> of the expansion of the rule number in \<open>2 ^ L\<close>
  binary digits, most significant first, which is \<open>(rule div 2 ^ s) mod 2\<close>; the
  neighbourhood of all ones gets the leftmost digit; for \<open>L = 3\<close> and rule 254 all ones
  give 1 and all zeros give 0.
\<close>

theorem nks_rule_decoding:
  assumes "binary state" and "1 \<le> length state"
    and "0 \<le> rule" and "rule < 2 ^ (2 ^ length state)"
  shows "nks_rule state rule
           = Inr (msb_digits (2 ^ length state) rule ! (2 ^ length state - 1 - nat (msb_value state)))
       \<and> nks_rule state rule = Inr ((rule div 2 ^ nat (msb_value state)) mod 2)
       \<and> nks_rule (replicate (length state) 1) rule = Inr (msb_digits (2 ^ length state) rule ! 0)
       \<and> nks_rule [1, 1, 1] 254 = Inr 1
       \<and> nks_rule [0, 0, 0] 254 = Inr 0"
proof -
  have v: "bits_to_int state = msb_value state"
    using assms(1) by (rule bits_to_int_msb_value)
  have a: "nks_rule state rule
      = Inr (msb_digits (2 ^ length state) rule ! (2 ^ length state - 1 - nat (msb_value state)))"
    using nks_rule_index [OF assms(3,4)] by (simp only: v)
  have b: "nks_rule state rule = Inr ((rule div 2 ^ nat (msb_value state)) mod 2)"
    using nks_rule_bit [OF assms(3,4)] by (simp only: v)
  have "bits_to_int (replicate (length state) 1) = 2 ^ length state - 1"
    by (simp only: bits_to_int_msb_value [OF binary_replicate_ones] msb_value_replicate_ones)
  moreover have "nat ((2::int) ^ length state - 1) = 2 ^ length state - 1"
    by (simp add: nat_diff_distrib nat_power_eq)
  moreover have "rule < 2 ^ (2 ^ length (replicate (length state) (1::int)))"
    using assms(4) by simp
  ultimately have c: "nks_rule (replicate (length state) 1) rule
      = Inr (msb_digits (2 ^ length state) rule ! 0)"
    using nks_rule_index [OF assms(3), of "replicate (length state) 1"] by simp
  have o: "bits_to_int [1, 1, 1] = 7" and z: "bits_to_int [0, 0, 0] = 0"
    by (simp_all add: bits_to_int_def)
  have d: "nks_rule [1, 1, 1] 254 = Inr 1"
    using nks_rule_bit [of 254 "[1, 1, 1]"] by (simp add: o)
  have e: "nks_rule [0, 0, 0] 254 = Inr 0"
    using nks_rule_bit [of 254 "[0, 0, 0]"] by (simp add: z)
  from a b c d e show ?thesis by blast
qed

theorem nks_rule_decoding_witness:
  "nks_rule [1, 0, 1] 110
           = Inr (msb_digits (2 ^ length [1, 0, 1 :: int]) 110
                    ! (2 ^ length [1, 0, 1 :: int] - 1 - nat (msb_value [1, 0, 1])))
       \<and> nks_rule [1, 0, 1] 110 = Inr ((110 div 2 ^ nat (msb_value [1, 0, 1])) mod 2)
       \<and> nks_rule (replicate (length [1, 0, 1 :: int]) 1) 110
           = Inr (msb_digits (2 ^ length [1, 0, 1 :: int]) 110 ! 0)
       \<and> nks_rule [1, 1, 1] 254 = Inr 1
       \<and> nks_rule [0, 0, 0] 254 = Inr 0"
  by (rule nks_rule_decoding) (simp_all add: binary_def)

text \<open>
  C5. Duality of the two numbering schemes: for a binary neighbourhood of length \<open>L\<close> and
  value \<open>s\<close> and a rule number in \<open>[0, 2 ^ (2 ^ L))\<close>, \<open>number_rule\<close> returns the digit at
  position \<open>s\<close> of the same expansion; the complemented neighbourhood has the value
  \<open>2 ^ L - 1 - s\<close> and \<open>nks_rule\<close> on a neighbourhood equals \<open>number_rule\<close> on its
  complement; when the expansion is not a palindrome, the two rules differ on some binary
  neighbourhood of that length.
\<close>

theorem nks_number_duality:
  assumes "binary state" and "0 \<le> rule" and "rule < 2 ^ (2 ^ length state)"
  shows "number_rule state rule
           = Inr (msb_digits (2 ^ length state) rule ! nat (msb_value state))
       \<and> msb_value (complement state) = 2 ^ length state - 1 - msb_value state
       \<and> nks_rule state rule = number_rule (complement state) rule
       \<and> (msb_digits (2 ^ length state) rule \<noteq> rev (msb_digits (2 ^ length state) rule)
            \<longrightarrow> (\<exists>st. binary st \<and> length st = length state
                    \<and> nks_rule st rule \<noteq> number_rule st rule))"
proof -
  let ?L = "length state"
  let ?xs = "msb_digits (2 ^ ?L) rule"
  have v: "bits_to_int state = msb_value state"
    using assms(1) by (rule bits_to_int_msb_value)
  have bc: "binary (complement state)"
    using assms(1) by (auto simp: binary_def complement_def list_all_iff)
  have a: "number_rule state rule = Inr (?xs ! nat (msb_value state))"
    using number_rule_index [OF assms(2,3)] by (simp only: v)
  have vc: "bits_to_int (complement state) = 2 ^ ?L - 1 - bits_to_int state"
    using assms(1) by (rule bits_to_int_complement)
  have b: "msb_value (complement state) = 2 ^ ?L - 1 - msb_value state"
    using vc by (simp only: bits_to_int_msb_value [OF bc] v)
  obtain s where s: "bits_to_int state = int s" "s < 2 ^ ?L"
    using state_int_nat [of state] by blast
  have "(2::int) ^ ?L - 1 - int s = int (2 ^ ?L - 1 - s)"
    using s(2) by (simp add: of_nat_diff)
  then have n: "nat (bits_to_int (complement state)) = 2 ^ ?L - 1 - nat (bits_to_int state)"
    by (simp only: vc s(1) nat_int)
  have r': "rule < 2 ^ (2 ^ length (complement state))"
    using assms(3) by (simp only: complement_length)
  have c: "nks_rule state rule = number_rule (complement state) rule"
    by (simp only: nks_rule_index [OF assms(2,3)] number_rule_index [OF assms(2) r']
        complement_length n)
  have d: "\<exists>st. binary st \<and> length st = ?L \<and> nks_rule st rule \<noteq> number_rule st rule"
    if np: "?xs \<noteq> rev ?xs"
  proof -
    from not_palindrome [OF np] obtain i
      where i: "i < 2 ^ ?L" "?xs ! i \<noteq> ?xs ! (2 ^ ?L - 1 - i)"
      by (auto simp: msb_digits_length)
    let ?st = "msb_digits ?L (int i)"
    have len: "length ?st = ?L" by (rule msb_digits_length)
    have "bits_to_int ?st = int i mod 2 ^ ?L" by (rule bits_to_int_msb_digits)
    also have "\<dots> = int i"
      using i(1) by (simp add: zmod_int [symmetric] del: of_nat_power)
    finally have val: "nat (bits_to_int ?st) = i" by simp
    have r'': "rule < 2 ^ (2 ^ length ?st)"
      using assms(3) by (simp only: len)
    have "nks_rule ?st rule = Inr (?xs ! (2 ^ ?L - 1 - i))"
      using nks_rule_index [OF assms(2) r''] by (simp only: len val)
    moreover have "number_rule ?st rule = Inr (?xs ! i)"
      using number_rule_index [OF assms(2) r''] by (simp only: len val)
    ultimately have "nks_rule ?st rule \<noteq> number_rule ?st rule"
      using i(2) by simp
    with len msb_digits_binary [of ?L "int i"] show ?thesis by blast
  qed
  from a b c d show ?thesis by blast
qed

theorem nks_number_duality_witness:
  "number_rule [1, 1, 0] 110
           = Inr (msb_digits (2 ^ length [1, 1, 0 :: int]) 110 ! nat (msb_value [1, 1, 0]))
       \<and> msb_value (complement [1, 1, 0]) = 2 ^ length [1, 1, 0 :: int] - 1 - msb_value [1, 1, 0]
       \<and> nks_rule [1, 1, 0] 110 = number_rule (complement [1, 1, 0]) 110
       \<and> msb_digits (2 ^ length [1, 1, 0 :: int]) 110
             \<noteq> rev (msb_digits (2 ^ length [1, 1, 0 :: int]) 110)
       \<and> (\<exists>st. binary st \<and> length st = length [1, 1, 0 :: int]
                    \<and> nks_rule st 110 \<noteq> number_rule st 110)"
proof -
  have h: "binary [1, 1, 0]" "(0::int) \<le> 110" "(110::int) < 2 ^ (2 ^ length [1, 1, 0 :: int])"
    by (simp_all add: binary_def)
  have np: "msb_digits (2 ^ length [1, 1, 0 :: int]) 110
      \<noteq> rev (msb_digits (2 ^ length [1, 1, 0 :: int]) 110)"
    by code_simp
  from nks_number_duality [OF h] np show ?thesis by blast
qed

section \<open>Properties of the totalistic rule\<close>

lemma digit_chars_value: "d < 36 \<Longrightarrow> digit_value (digit_chars ! d) = Some d"
proof -
  have "list_all (\<lambda>d. digit_value (digit_chars ! d) = Some d) [0..<36]"
    by code_simp
  then show "d < 36 \<Longrightarrow> digit_value (digit_chars ! d) = Some d"
    by (simp add: list_all_iff)
qed

lemma digit_chars_not_sign:
  "d < 36 \<Longrightarrow> digit_chars ! d \<noteq> CHR ''+'' \<and> digit_chars ! d \<noteq> CHR ''-''"
proof -
  have "list_all (\<lambda>d. digit_chars ! d \<noteq> CHR ''+'' \<and> digit_chars ! d \<noteq> CHR ''-'') [0..<36]"
    by code_simp
  then show "d < 36 \<Longrightarrow> digit_chars ! d \<noteq> CHR ''+'' \<and> digit_chars ! d \<noteq> CHR ''-''"
    by (simp add: list_all_iff)
qed

lemma base_repr_loop_zero: "base_repr_loop b 0 = []"
  by (subst base_repr_loop.simps) simp

lemma base_repr_loop_pos:
  "2 \<le> b \<Longrightarrow> 0 < n \<Longrightarrow>
   base_repr_loop b n = digit_chars ! (n mod b) # base_repr_loop b (n div b)"
  by (subst base_repr_loop.simps) simp

lemma base_repr_loop_length:
  "2 \<le> b \<Longrightarrow> length (base_repr_loop b n) \<le> m \<longleftrightarrow> n < b ^ m"
proof (induction m arbitrary: n)
  case 0
  then show ?case
    by (cases "n = 0") (simp_all add: base_repr_loop_zero base_repr_loop_pos)
next
  case (Suc m)
  show ?case
  proof (cases "n = 0")
    case True
    with Suc.prems show ?thesis by (simp add: base_repr_loop_zero)
  next
    case False
    have "n div b < b ^ m \<longleftrightarrow> n < b ^ m * b"
      using Suc.prems by (intro div_less_iff_less_mult) simp
    with False Suc show ?thesis
      by (simp add: base_repr_loop_pos mult.commute)
  qed
qed

lemma base_repr_loop_nth:
  "2 \<le> b \<Longrightarrow> j < length (base_repr_loop b n) \<Longrightarrow>
   base_repr_loop b n ! j = digit_chars ! ((n div b ^ j) mod b)"
proof (induction j arbitrary: n)
  case 0
  then have "0 < n" by (cases "n = 0") (simp_all add: base_repr_loop_zero)
  with 0 show ?case by (simp add: base_repr_loop_pos)
next
  case (Suc j)
  then have n: "0 < n" by (cases "n = 0") (simp_all add: base_repr_loop_zero)
  with Suc.prems have "j < length (base_repr_loop b (n div b))"
    by (simp add: base_repr_loop_pos)
  from Suc.IH [OF Suc.prems(1) this] n Suc.prems(1) show ?case
    by (simp add: base_repr_loop_pos div_mult2_eq)
qed

lemma base_repr_loop_no_sign:
  assumes "2 \<le> b" and "b \<le> 36" and "c \<in> set (base_repr_loop b n)"
  shows "c \<noteq> CHR ''+'' \<and> c \<noteq> CHR ''-''"
proof -
  from assms(3) obtain j where j: "j < length (base_repr_loop b n)" "c = base_repr_loop b n ! j"
    by (auto simp: in_set_conv_nth)
  have "(n div b ^ j) mod b < 36"
    using assms(1,2) by (intro less_le_trans [OF mod_less_divisor]) simp_all
  with j base_repr_loop_nth [OF assms(1) j(1)] show ?thesis
    by (simp add: digit_chars_not_sign)
qed

lemma base_repr_loop_char:
  assumes "2 \<le> b"
  shows "(if j < length (base_repr_loop b n) then base_repr_loop b n ! j else CHR ''0'')
         = digit_chars ! ((n div b ^ j) mod b)"
proof (cases "j < length (base_repr_loop b n)")
  case True
  then show ?thesis by (simp add: base_repr_loop_nth [OF assms])
next
  case False
  have "n < b ^ length (base_repr_loop b n)"
    using base_repr_loop_length [OF assms, of n "length (base_repr_loop b n)"] by simp
  also have "\<dots> \<le> b ^ j"
    using False assms by (intro power_increasing) simp_all
  finally have "n div b ^ j = 0" by simp
  with False show ?thesis by (simp add: digit_chars_def)
qed

lemma base_repr_nonneg:
  assumes "2 \<le> k" and "k \<le> 36" and "0 \<le> rule"
  shows "base_repr rule k = Inr (rev (repr_digits (nat k) (nat rule)))"
  using assms by (simp add: base_repr_def repr_digits_def digit_chars_def Let_def)

lemma repr_digits_length:
  assumes "2 \<le> b" and "1 \<le> m"
  shows "length (repr_digits b n) \<le> m \<longleftrightarrow> n < b ^ m"
proof (cases "base_repr_loop b n = []")
  case True
  then have "length (base_repr_loop b n) \<le> 0" by simp
  then have "n < b ^ 0" by (simp only: base_repr_loop_length [OF assms(1)])
  then have "n = 0" by simp
  with True assms show ?thesis by (simp add: repr_digits_def)
next
  case False
  then show ?thesis
    by (simp add: repr_digits_def base_repr_loop_length [OF assms(1)])
qed

lemma repr_digits_char:
  assumes b: "2 \<le> b" and that: "j < length (repr_digits b n) + p"
  shows "(repr_digits b n @ replicate p CHR ''0'') ! j = digit_chars ! ((n div b ^ j) mod b)"
proof (cases "base_repr_loop b n = []")
  case True
  then have "length (base_repr_loop b n) \<le> 0" by simp
  then have "n < b ^ 0" by (simp only: base_repr_loop_length [OF b])
  then have n: "n = 0" by simp
  have "(''0'' @ replicate p CHR ''0'') ! j = CHR ''0''"
    using that True by (cases j) (simp_all add: repr_digits_def)
  with True n show ?thesis by (simp add: repr_digits_def digit_chars_def)
next
  case False
  have "(base_repr_loop b n @ replicate p CHR ''0'') ! j
      = (if j < length (base_repr_loop b n) then base_repr_loop b n ! j else CHR ''0'')"
    using that False by (simp add: nth_append repr_digits_def)
  with False show ?thesis
    by (simp add: repr_digits_def base_repr_loop_char [OF b])
qed

lemma repr_digits_no_sign:
  assumes "2 \<le> b" and "b \<le> 36"
  shows "\<exists>c rest. rev (repr_digits b n) = c # rest \<and> c \<noteq> CHR ''+'' \<and> c \<noteq> CHR ''-''"
proof (cases "base_repr_loop b n = []")
  case True
  then show ?thesis by (simp add: repr_digits_def)
next
  case False
  then have ne: "rev (base_repr_loop b n) \<noteq> []" by simp
  then obtain c rest where cr: "rev (base_repr_loop b n) = c # rest"
    by (cases "rev (base_repr_loop b n)") auto
  then have "c \<in> set (rev (base_repr_loop b n))" by simp
  then have "c \<in> set (base_repr_loop b n)" by simp
  from base_repr_loop_no_sign [OF assms this] cr False show ?thesis
    by (simp add: repr_digits_def)
qed

lemma zfill_repr_digits:
  assumes "2 \<le> b" and "b \<le> 36"
  shows "zfill (rev (repr_digits b n)) w
    = replicate (nat (w - int (length (repr_digits b n)))) CHR ''0'' @ rev (repr_digits b n)"
proof -
  obtain c rest where cr: "rev (repr_digits b n) = c # rest" "c \<noteq> CHR ''+''" "c \<noteq> CHR ''-''"
    using repr_digits_no_sign [OF assms] by blast
  have len: "length (rev (repr_digits b n)) = length (repr_digits b n)" by simp
  show ?thesis
  proof (cases "w \<le> int (length (repr_digits b n))")
    case True
    then show ?thesis by (simp add: zfill_def)
  next
    case False
    then have "zfill (c # rest) w = replicate (nat (w - int (length (c # rest)))) CHR ''0'' @ c # rest"
      using cr(2,3) len unfolding cr(1) by (simp add: zfill_def Let_def)
    then show ?thesis using len unfolding cr(1) by simp
  qed
qed

lemma rule_string_nth:
  assumes "2 \<le> b" and "b \<le> 36" and "length (repr_digits b n) \<le> m" and "j < m"
  shows "zfill (rev (repr_digits b n)) (int m) ! (m - 1 - j)
           = digit_chars ! ((n div b ^ j) mod b)"
    and "length (zfill (rev (repr_digits b n)) (int m)) = m"
proof -
  let ?ds = "repr_digits b n"
  let ?p = "m - length ?ds"
  have z: "zfill (rev ?ds) (int m) = replicate ?p CHR ''0'' @ rev ?ds"
    using zfill_repr_digits [OF assms(1,2), of n "int m"] assms(3)
    by (simp add: nat_diff_distrib')
  show len: "length (zfill (rev ?ds) (int m)) = m"
    using assms(3) by (simp add: z)
  have r: "rev (zfill (rev ?ds) (int m)) = ?ds @ replicate ?p CHR ''0''"
    by (simp add: z)
  have "zfill (rev ?ds) (int m) ! (m - 1 - j) = rev (zfill (rev ?ds) (int m)) ! j"
    using assms(4) len by (simp add: rev_nth)
  also have "\<dots> = digit_chars ! ((n div b ^ j) mod b)"
    unfolding r using assms(3,4) by (intro repr_digits_char [OF assms(1)]) simp
  finally show "zfill (rev ?ds) (int m) ! (m - 1 - j) = digit_chars ! ((n div b ^ j) mod b)" .
qed

lemma py_int_digit_char: "d < nat k \<Longrightarrow> k \<le> 36 \<Longrightarrow> py_int_char (digit_chars ! d) k = Inr (int d)"
  by (simp add: py_int_char_def digit_chars_value)

lemma totalistic_rule_unfold:
  assumes "2 \<le> k" and "k \<le> 36" and "0 \<le> rule"
  shows "totalistic_rule state k rule =
     (let rule_string = zfill (rev (repr_digits (nat k) (nat rule))) (3 * k - 2) in
      if int (length rule_string) > 3 * k - 2 then Inl RangeError
      else case py_index rule_string ((3 * k - 3) - sum_list state) of
             Inl e \<Rightarrow> Inl e
           | Inr c \<Rightarrow> py_int_char c k)"
  by (simp add: totalistic_rule_def base_repr_nonneg [OF assms] Let_def)

lemma totalistic_rule_long:
  assumes "2 \<le> k" and "k \<le> 36" and "0 \<le> rule"
    and "3 * k - 2 < int (length (repr_digits (nat k) (nat rule)))"
  shows "totalistic_rule state k rule = Inl RangeError"
proof -
  have "zfill (rev (repr_digits (nat k) (nat rule))) (3 * k - 2) = rev (repr_digits (nat k) (nat rule))"
    using assms(4) by (simp add: zfill_def)
  with assms(4) show ?thesis
    by (simp add: totalistic_rule_unfold [OF assms(1-3)])
qed

lemma py_int_char_no_range_error: "py_int_char c k \<noteq> Inl RangeError"
  by (simp add: py_int_char_def split: option.splits)

lemma py_index_no_range_error: "py_index xs i \<noteq> Inl RangeError"
  by (simp add: py_index_def)

lemma totalistic_rule_short:
  assumes "2 \<le> k" and "k \<le> 36" and "0 \<le> rule"
    and "int (length (repr_digits (nat k) (nat rule))) \<le> 3 * k - 2"
  shows "totalistic_rule state k rule \<noteq> Inl RangeError"
proof -
  let ?rs = "zfill (rev (repr_digits (nat k) (nat rule))) (3 * k - 2)"
  have b: "2 \<le> nat k" "nat k \<le> 36" using assms(1,2) by simp_all
  have m: "3 * k - 2 = int (nat (3 * k - 2))" using assms(1) by simp
  have le: "length (repr_digits (nat k) (nat rule)) \<le> nat (3 * k - 2)"
    using assms(4) by simp
  have j: "0 < nat (3 * k - 2)" using assms(1) by simp
  have "length ?rs = nat (3 * k - 2)"
    using rule_string_nth(2) [OF b le j] by (simp only: m [symmetric])
  then have len: "\<not> 3 * k - 2 < int (length ?rs)" using assms(1) by simp
  show ?thesis
  proof (cases "py_index ?rs ((3 * k - 3) - sum_list state)")
    case (Inl e)
    with len py_index_no_range_error [of ?rs "(3 * k - 3) - sum_list state"] show ?thesis
      by (simp add: totalistic_rule_unfold [OF assms(1-3)] Let_def)
  next
    case (Inr c)
    with len py_int_char_no_range_error [of c k] show ?thesis
      by (simp add: totalistic_rule_unfold [OF assms(1-3)] Let_def)
  qed
qed

lemma totalistic_rule_lookup:
  assumes "2 \<le> k" and "k \<le> 36" and "0 \<le> rule"
    and "int (length (repr_digits (nat k) (nat rule))) \<le> 3 * k - 2"
    and "0 \<le> j" and "j < 3 * k - 2"
    and "sum_list state = j \<or> sum_list state = j + (3 * k - 2)"
  shows "totalistic_rule state k rule = Inr ((rule div k ^ nat j) mod k)"
proof -
  let ?rs = "zfill (rev (repr_digits (nat k) (nat rule))) (3 * k - 2)"
  let ?m = "nat (3 * k - 2)"
  let ?d = "(nat rule div nat k ^ nat j) mod nat k"
  have b: "2 \<le> nat k" "nat k \<le> 36" using assms(1,2) by simp_all
  have m: "3 * k - 2 = int ?m" using assms(1) by simp
  have le: "length (repr_digits (nat k) (nat rule)) \<le> ?m"
    using assms(4) by simp
  have jm: "nat j < ?m" using assms(5,6) by simp
  have len: "length ?rs = ?m"
    using rule_string_nth(2) [OF b le jm] by (simp only: m [symmetric])
  have nth: "?rs ! (?m - 1 - nat j) = digit_chars ! ?d"
    using rule_string_nth(1) [OF b le jm] by (simp only: m [symmetric])
  have pos: "int (?m - 1 - nat j) = 3 * k - 3 - j"
    using assms(1,5,6) by simp
  have idx: "py_index ?rs ((3 * k - 3) - sum_list state) = Inr (?rs ! (?m - 1 - nat j))"
  proof (cases "sum_list state = j")
    case True
    have "py_index ?rs (int (?m - 1 - nat j)) = Inr (?rs ! (?m - 1 - nat j))"
      using jm by (intro py_index_nat) (simp add: len)
    then show ?thesis by (simp only: True pos)
  next
    case False
    with assms(7) have s: "sum_list state = j + (3 * k - 2)" by simp
    have i: "(3 * k - 3) - sum_list state = - 1 - j" by (simp add: s)
    have "nat (int (length ?rs) + (- 1 - j)) = ?m - 1 - nat j"
      using assms(1,5,6) by (simp add: len)
    moreover have "- 1 - j < 0" "- int (length ?rs) \<le> - 1 - j"
      using assms(1,5,6) by (simp_all add: len)
    ultimately show ?thesis
      unfolding i by (simp add: py_index_def)
  qed
  have d: "?d < nat k" using b by simp
  have val: "int ?d = (rule div k ^ nat j) mod k"
    using assms(1,3) by (simp add: zmod_int zdiv_int)
  have idx': "py_index ?rs ((3 * k - 3) - sum_list state) = Inr (digit_chars ! ?d)"
    by (simp only: idx nth)
  have "\<not> 3 * k - 2 < int (length ?rs)" using assms(1) by (simp add: len)
  then have "totalistic_rule state k rule = py_int_char (digit_chars ! ?d) k"
    by (simp add: totalistic_rule_unfold [OF assms(1-3)] Let_def idx')
  also have "\<dots> = Inr (int ?d)"
    using d assms(2) by (rule py_int_digit_char)
  finally show ?thesis by (simp only: val)
qed

lemma totalistic_rule_index_error:
  assumes "2 \<le> k" and "k \<le> 36" and "0 \<le> rule"
    and "int (length (repr_digits (nat k) (nat rule))) \<le> 3 * k - 2"
    and "6 * k - 5 < sum_list state"
  shows "totalistic_rule state k rule = Inl IndexError"
proof -
  let ?rs = "zfill (rev (repr_digits (nat k) (nat rule))) (3 * k - 2)"
  let ?m = "nat (3 * k - 2)"
  have b: "2 \<le> nat k" "nat k \<le> 36" using assms(1,2) by simp_all
  have m: "3 * k - 2 = int ?m" using assms(1) by simp
  have le: "length (repr_digits (nat k) (nat rule)) \<le> ?m"
    using assms(4) by simp
  have jm: "0 < ?m" using assms(1) by simp
  have len: "length ?rs = ?m"
    using rule_string_nth(2) [OF b le jm] by (simp only: m [symmetric])
  have "py_index ?rs ((3 * k - 3) - sum_list state) = Inl IndexError"
    using assms(1,5) by (simp add: py_index_def len)
  moreover have "\<not> 3 * k - 2 < int (length ?rs)" using assms(1) by (simp add: len)
  ultimately show ?thesis
    by (simp add: totalistic_rule_unfold [OF assms(1-3)] Let_def)
qed

lemma repr_digits_long:
  assumes "2 \<le> k" and "0 \<le> rule"
  shows "3 * k - 2 < int (length (repr_digits (nat k) (nat rule))) \<longleftrightarrow> k ^ nat (3 * k - 2) \<le> rule"
proof -
  have b: "2 \<le> nat k" and m: "1 \<le> nat (3 * k - 2)" using assms(1) by simp_all
  have "length (repr_digits (nat k) (nat rule)) \<le> nat (3 * k - 2)
      \<longleftrightarrow> nat rule < nat k ^ nat (3 * k - 2)"
    using repr_digits_length [OF b m] .
  moreover have "nat rule < nat k ^ nat (3 * k - 2) \<longleftrightarrow> rule < k ^ nat (3 * k - 2)"
    using assms by (simp add: nat_less_iff)
  ultimately show ?thesis using assms(1) by auto
qed

lemma sum_list_bounded:
  "\<forall>c\<in>set state. c \<le> (u::int) \<Longrightarrow> sum_list state \<le> int (length state) * u"
  by (induction state) (auto simp: algebra_simps)

text \<open>
  C9. Range error of the totalistic rule: for \<open>k\<close> in \<open>[2, 36]\<close> and a non-negative rule
  number, \<open>base_repr\<close> returns the base-\<open>k\<close> representation; it is longer than
  \<open>3 * k - 2\<close> digits exactly when the rule number is at least \<open>k ^ (3 * k - 2)\<close>; when it
  is longer, \<open>totalistic_rule\<close> raises the range error for every neighbourhood, and when
  it is not, \<open>totalistic_rule\<close> raises no range error for any neighbourhood.
\<close>

theorem totalistic_range_error:
  assumes "2 \<le> k" and "k \<le> 36" and "0 \<le> rule"
  shows "\<exists>repr. base_repr rule k = Inr repr
      \<and> (3 * k - 2 < int (length repr) \<longleftrightarrow> k ^ nat (3 * k - 2) \<le> rule)
      \<and> (if 3 * k - 2 < int (length repr)
          then \<forall>state. totalistic_rule state k rule = Inl RangeError
          else \<forall>state. totalistic_rule state k rule \<noteq> Inl RangeError)"
proof -
  let ?repr = "rev (repr_digits (nat k) (nat rule))"
  have r: "base_repr rule k = Inr ?repr"
    using assms by (rule base_repr_nonneg)
  have len: "length ?repr = length (repr_digits (nat k) (nat rule))" by simp
  have c: "3 * k - 2 < int (length ?repr) \<longleftrightarrow> k ^ nat (3 * k - 2) \<le> rule"
    unfolding len using assms(1,3) by (rule repr_digits_long)
  have "\<forall>state. totalistic_rule state k rule = Inl RangeError"
    if "3 * k - 2 < int (length ?repr)"
    using that totalistic_rule_long [OF assms] unfolding len by blast
  moreover have "\<forall>state. totalistic_rule state k rule \<noteq> Inl RangeError"
    if "\<not> 3 * k - 2 < int (length ?repr)"
    using that totalistic_rule_short [OF assms] unfolding len by (simp add: not_less)
  ultimately show ?thesis using r c by (intro exI [of _ ?repr]) simp
qed

theorem totalistic_range_error_witness:
  "base_repr 16 2 = Inr ''10000''
   \<and> (\<forall>state. totalistic_rule state 2 16 = Inl RangeError)
   \<and> base_repr 6 2 = Inr ''110''
   \<and> (\<forall>state. totalistic_rule state 2 6 \<noteq> Inl RangeError)"
proof -
  have a: "base_repr 16 2 = Inr ''10000''" and b: "base_repr 6 2 = Inr ''110''"
    by code_simp+
  from totalistic_range_error [of 2 16] a
  have "\<forall>state. totalistic_rule state 2 16 = Inl RangeError" by simp
  moreover from totalistic_range_error [of 2 6] b
  have "\<forall>state. totalistic_rule state 2 6 \<noteq> Inl RangeError" by simp
  ultimately show ?thesis using a b by blast
qed

text \<open>
  C10. The totalistic rule does not check the sum of the neighbourhood: for \<open>k\<close> in
  \<open>[2, 36]\<close> and a non-negative rule number whose base-\<open>k\<close> representation has at most
  \<open>3 * k - 2\<close> digits, a neighbourhood whose sum \<open>S\<close> exceeds \<open>3 * k - 3\<close> makes the
  index \<open>(3 * k - 3) - S\<close> negative; for \<open>S \<le> 6 * k - 5\<close> the function returns the digit
  of the rule for the sum \<open>S - (3 * k - 2)\<close>, which is what it returns on a neighbourhood
  of that sum, and for \<open>S > 6 * k - 5\<close> it raises \<open>IndexError\<close>. With cells in
  \<open>[0, k - 1]\<close> such a sum needs more than three cells, and every length above three
  has a neighbourhood with such a sum.
\<close>

theorem totalistic_sum_unchecked:
  assumes "2 \<le> k" and "k \<le> 36" and "0 \<le> rule"
    and "base_repr rule k = Inr repr" and "int (length repr) \<le> 3 * k - 2"
    and "3 * k - 3 < sum_list state"
  shows "(3 * k - 3) - sum_list state < 0
    \<and> (sum_list state \<le> 6 * k - 5 \<longrightarrow>
         totalistic_rule state k rule
           = Inr ((rule div k ^ nat (sum_list state - (3 * k - 2))) mod k)
       \<and> totalistic_rule state k rule = totalistic_rule [sum_list state - (3 * k - 2)] k rule)
    \<and> (6 * k - 5 < sum_list state \<longrightarrow> totalistic_rule state k rule = Inl IndexError)
    \<and> ((\<forall>c\<in>set state. 0 \<le> c \<and> c \<le> k - 1) \<longrightarrow> 3 < length state)
    \<and> (\<forall>n>3. \<exists>st. length st = n \<and> (\<forall>c\<in>set st. 0 \<le> c \<and> c \<le> k - 1)
           \<and> 3 * k - 3 < sum_list st)"
proof -
  have "repr = rev (repr_digits (nat k) (nat rule))"
    using assms(4) base_repr_nonneg [OF assms(1-3)] by simp
  with assms(5) have fit: "int (length (repr_digits (nat k) (nat rule))) \<le> 3 * k - 2"
    by simp
  have a: "(3 * k - 3) - sum_list state < 0" using assms(6) by simp
  have b: "totalistic_rule state k rule
           = Inr ((rule div k ^ nat (sum_list state - (3 * k - 2))) mod k)
       \<and> totalistic_rule state k rule = totalistic_rule [sum_list state - (3 * k - 2)] k rule"
    if le: "sum_list state \<le> 6 * k - 5"
  proof -
    let ?j = "sum_list state - (3 * k - 2)"
    have j: "0 \<le> ?j" "?j < 3 * k - 2" using assms(6) le by simp_all
    have "totalistic_rule state k rule = Inr ((rule div k ^ nat ?j) mod k)"
      using j by (intro totalistic_rule_lookup [OF assms(1-3) fit]) simp_all
    moreover have "totalistic_rule [?j] k rule = Inr ((rule div k ^ nat ?j) mod k)"
      using j by (intro totalistic_rule_lookup [OF assms(1-3) fit]) simp_all
    ultimately show ?thesis by simp
  qed
  have c: "totalistic_rule state k rule = Inl IndexError" if "6 * k - 5 < sum_list state"
    using that by (rule totalistic_rule_index_error [OF assms(1-3) fit])
  have d: "3 < length state" if "\<forall>c\<in>set state. 0 \<le> c \<and> c \<le> k - 1"
  proof -
    from that have "sum_list state \<le> int (length state) * (k - 1)"
      by (intro sum_list_bounded) simp
    with assms(6) have "3 * (k - 1) < int (length state) * (k - 1)"
      by (simp add: algebra_simps)
    moreover have "0 < k - 1" using assms(1) by simp
    ultimately have "3 < int (length state)"
      by (simp only: mult_less_cancel_right_pos)
    then show ?thesis by simp
  qed
  have e: "\<exists>st. length st = n \<and> (\<forall>c\<in>set st. 0 \<le> c \<and> c \<le> k - 1) \<and> 3 * k - 3 < sum_list st"
    if "3 < n" for n
  proof -
    have "0 < k - 1" using assms(1) by simp
    moreover have "3 < int n" using that by simp
    ultimately have "3 * (k - 1) < int n * (k - 1)"
      by (simp only: mult_less_cancel_right_pos)
    then have "3 * k - 3 < sum_list (replicate n (k - 1))"
      by (simp add: sum_list_replicate algebra_simps)
    moreover have "\<forall>c\<in>set (replicate n (k - 1)). 0 \<le> c \<and> c \<le> k - 1"
      using assms(1) by simp
    ultimately show ?thesis
      by (intro exI [of _ "replicate n (k - 1)"]) simp
  qed
  from a b c d e show ?thesis by blast
qed

theorem totalistic_sum_unchecked_witness:
  "base_repr 777 3 = Inr ''1001210''
   \<and> totalistic_rule [2, 2, 2, 2] 3 777 = Inr 1
   \<and> totalistic_rule [2, 2, 2, 2] 3 777 = totalistic_rule [1] 3 777
   \<and> totalistic_rule [2, 2, 2, 2, 2, 2, 2] 3 777 = Inl IndexError
   \<and> 3 < length [2, 2, 2, 2 :: int]"
proof -
  have r: "base_repr 777 3 = Inr ''1001210''" by code_simp
  have h: "(2::int) \<le> 3" "(3::int) \<le> 36" "(0::int) \<le> 777"
    "int (length ''1001210'') \<le> 3 * 3 - 2" by simp_all
  have s1: "3 * 3 - 3 < sum_list [2, 2, 2, 2 :: int]"
    and s2: "3 * 3 - 3 < sum_list [2, 2, 2, 2, 2, 2, 2 :: int]" by simp_all
  from totalistic_sum_unchecked [OF h(1-3) r h(4) s1]
  have "totalistic_rule [2, 2, 2, 2] 3 777 = Inr 1"
    and "totalistic_rule [2, 2, 2, 2] 3 777 = totalistic_rule [1] 3 777"
    and "3 < length [2, 2, 2, 2 :: int]"
    by auto
  moreover from totalistic_sum_unchecked [OF h(1-3) r h(4) s2]
  have "totalistic_rule [2, 2, 2, 2, 2, 2, 2] 3 777 = Inl IndexError" by simp
  ultimately show ?thesis using r by blast
qed

section \<open>Properties of the evolver\<close>

lemma int_mod_shift:
  assumes "0 \<le> y" and "y < n"
  shows "(y - n) mod n = (y::int)" and "(y + n) mod n = y" and "y mod n = y"
  using assms by simp_all

lemma padded_indices_nth:
  assumes "r \<le> n" and "p < n + 2 * r"
  shows "([n - r..<n] @ [0..<n] @ [0..<r]) ! p = nat ((int p - int r) mod int n)"
proof -
  consider "p < r" | "r \<le> p" "p < r + n" | "r + n \<le> p"
    by linarith
  then show ?thesis
  proof cases
    case 1
    have "(int p - int r) mod int n = (int (n - r + p) - int n) mod int n"
      using assms(1) 1 by (simp add: of_nat_diff)
    also have "\<dots> = int (n - r + p)"
      using assms(1) 1 by (intro int_mod_shift(1)) simp_all
    finally have v: "nat ((int p - int r) mod int n) = n - r + p" by simp
    have "([n - r..<n] @ [0..<n] @ [0..<r]) ! p = n - r + p"
      using 1 assms(1) by (simp add: nth_append)
    then show ?thesis by (simp only: v)
  next
    case 2
    have "(int p - int r) mod int n = int (p - r) mod int n"
      using 2 by (simp add: of_nat_diff)
    also have "\<dots> = int (p - r)"
      using 2 by (intro int_mod_shift(3)) auto
    finally have v: "nat ((int p - int r) mod int n) = p - r" by simp
    have "p - r < n" using 2 by simp
    then have "([n - r..<n] @ [0..<n] @ [0..<r]) ! p = p - r"
      using 2 assms(1) by (simp add: nth_append)
    then show ?thesis by (simp only: v)
  next
    case 3
    have "(int p - int r) mod int n = (int (p - r - n) + int n) mod int n"
      using 3 by (simp add: of_nat_diff)
    also have "\<dots> = int (p - r - n)"
      using 3 assms by (intro int_mod_shift(2)) auto
    finally have v: "nat ((int p - int r) mod int n) = p - r - n" by simp
    have "p - r - n < r" "\<not> p < r" "\<not> p - r < n" "p - r - n = p - (r + n)"
      using 3 assms by simp_all
    then have "([n - r..<n] @ [0..<n] @ [0..<r]) ! p = p - r - n"
      using assms(1) by (simp add: nth_append)
    then show ?thesis by (simp only: v)
  qed
qed

lemma take_drop_nth:
  "c + w \<le> length xs \<Longrightarrow> take w (drop c xs) = map (\<lambda>j. xs ! (c + j)) [0..<w]"
  by (rule nth_equalityI) simp_all

lemma index_strides_arange:
  assumes "1 \<le> r" and "r \<le> n"
  shows "index_strides [0..<n] (2 * int r + 1)
    = Inr (map (\<lambda>c. map (\<lambda>j. nat ((int c + int j - int r) mod int n)) [0..<2 * r + 1]) [0..<n])"
proof -
  define arr where "arr = [n - r..<n] @ [0..<n] @ [0..<r]"
  have d: "(- (2 * int r + 1)) div 2 + 1 = - int r" and e: "(2 * int r + 1) div 2 = int r"
    by simp_all
  have "nat (int n - int r) = n - r" by simp
  then have f: "slice_from [0..<n] (- int r) = [n - r..<n]"
    using assms by (simp add: slice_from_def drop_upt)
  have t: "slice_to [0..<n] (int r) = [0..<r]"
    using assms by (simp add: slice_to_def take_upt)
  have len: "length arr = n + 2 * r" using assms by (simp add: arr_def)
  have rows: "int (length arr) - (2 * int r + 1) + 1 = int n"
    unfolding len by simp
  have w: "nat (2 * int r + 1) = 2 * r + 1" by simp
  have "index_strides [0..<n] (2 * int r + 1)
      = Inr (map (\<lambda>i. take (2 * r + 1) (drop i arr)) [0..<n])"
    unfolding index_strides_def d e f t Let_def arr_def [symmetric] rows w by simp
  moreover have "take (2 * r + 1) (drop c arr)
      = map (\<lambda>j. nat ((int c + int j - int r) mod int n)) [0..<2 * r + 1]" if "c < n" for c
  proof -
    have "c + (2 * r + 1) \<le> length arr" using that unfolding len by simp
    then have "take (2 * r + 1) (drop c arr) = map (\<lambda>j. arr ! (c + j)) [0..<2 * r + 1]"
      by (rule take_drop_nth)
    also have "\<dots> = map (\<lambda>j. nat ((int c + int j - int r) mod int n)) [0..<2 * r + 1]"
    proof (rule map_cong [OF refl])
      fix j assume "j \<in> set [0..<2 * r + 1]"
      then have "j < 2 * r + 1" by (simp only: set_upt atLeastLessThan_iff)
      then have "c + j < n + 2 * r" using that by linarith
      from padded_indices_nth [OF assms(2) this]
      show "arr ! (c + j) = nat ((int c + int j - int r) mod int n)"
        by (simp only: arr_def of_nat_add)
    qed
    finally show ?thesis .
  qed
  ultimately show ?thesis by (simp del: upt_Suc)
qed

lemma window_states_periodic:
  assumes "1 \<le> r" and "r \<le> length cells"
  shows "window_states cells r = Inr (map (neighbourhood r cells) [0..<length cells])"
  by (simp add: window_states_def index_strides_arange [OF assms] neighbourhood_def comp_def
      del: upt_Suc)

lemma apply_row_map:
  "apply_row f (map g [0..<n]) = map (\<lambda>c. f (g c) c) [0..<n]"
  by (rule nth_equalityI) (simp_all add: apply_row_def nth_enumerate_eq)

lemma apply_row_length: "length (apply_row f states) = length states"
  by (simp add: apply_row_def)

lemma broadcast_row_length: "broadcast_row cols vals = Inr row \<Longrightarrow> length row = cols"
  by (auto simp: broadcast_row_def split: if_splits)

lemma cast_row_length: "cast_row fc dt vals = Inr row \<Longrightarrow> length row = length vals"
  by (induction vals arbitrary: row) (auto split: sum.splits)

lemma cast_row_signed: "cast_row fc Int64 vals = Inr vals"
  by (induction vals) simp_all

lemma assign_row_length: "assign_row fc cols vals = Inr row \<Longrightarrow> length row = cols"
  by (auto simp: assign_row_def split: sum.splits
      dest: broadcast_row_length cast_row_length)

lemma assign_row_in_range:
  assumes "list_all in_int64 vals"
  shows "assign_row fc (length vals) vals = Inr vals"
proof (cases "vals = []")
  case True
  then show ?thesis by (simp add: assign_row_def broadcast_row_def)
next
  case False
  with assms have "result_dtype vals = Int64" by (simp add: result_dtype_def)
  then show ?thesis by (simp add: assign_row_def broadcast_row_def cast_row_signed)
qed

lemma assign_row_shape_error:
  assumes "length vals \<noteq> cols" and "length vals \<noteq> 1"
  shows "assign_row fc cols vals = Inl ValueError"
  using assms by (simp add: assign_row_def broadcast_row_def)

lemma next_row_length: "next_row fc f r cols cells = Inr row \<Longrightarrow> length row = cols"
  by (auto simp: next_row_def split: sum.splits dest: assign_row_length)

lemma apply_row_in_range:
  assumes "\<forall>s c. c < n \<longrightarrow> in_int64 (f s c)"
  shows "list_all in_int64 (map (\<lambda>c. f (g c) c) [0..<n])"
  using assms by (simp add: list_all_iff)

lemma next_row_periodic:
  assumes "1 \<le> r" and "r \<le> length cells"
    and "\<forall>s c. c < length cells \<longrightarrow> in_int64 (f s c)"
  shows "next_row fc f r (length cells) cells
    = Inr (map (\<lambda>c. f (neighbourhood r cells c) c) [0..<length cells])"
proof -
  let ?vals = "map (\<lambda>c. f (neighbourhood r cells c) c) [0..<length cells]"
  have "list_all in_int64 ?vals" using assms(3) by (rule apply_row_in_range)
  from assign_row_in_range [OF this, of fc]
  have "assign_row fc (length cells) ?vals = Inr ?vals" by simp
  then show ?thesis
    by (simp add: next_row_def window_states_periodic [OF assms(1,2)] apply_row_map)
qed

lemma window_states_radius_zero:
  "\<exists>states. window_states cells 0 = Inr states \<and> length states = 2 * length cells"
  by (simp add: window_states_def index_strides_def slice_from_def slice_to_def Let_def)

lemma next_row_radius_zero:
  assumes "1 \<le> length cells"
  shows "next_row fc f 0 (length cells) cells = Inl ValueError"
proof -
  obtain states where s: "window_states cells 0 = Inr states" "length states = 2 * length cells"
    using window_states_radius_zero by blast
  have "assign_row fc (length cells) (apply_row f states) = Inl ValueError"
    using assms s(2) by (intro assign_row_shape_error) (auto simp: apply_row_length)
  with s(1) show ?thesis by (simp add: next_row_def)
qed

lemma next_row_synchronous:
  assumes "r \<le> length cells" and "\<forall>s c. c < length cells \<longrightarrow> in_int64 (f s c)"
    and "next_row fc f r (length cells) cells = Inr row"
  shows "row = map (\<lambda>c. f (neighbourhood r cells c) c) [0..<length cells]"
proof (cases "1 \<le> r")
  case True
  from next_row_periodic [OF True assms(1,2), of fc] assms(3) show ?thesis by simp
next
  case False
  then have r: "r = 0" by simp
  show ?thesis
  proof (cases "1 \<le> length cells")
    case True
    from next_row_radius_zero [OF True, of fc f] assms(3) r show ?thesis by simp
  next
    case False
    then have "length cells = 0" by (cases cells) simp_all
    with next_row_length [OF assms(3)] show ?thesis by simp
  qed
qed

lemma evolve_loop_upt:
  "evolve_loop fc f r cols [a..<n] array = Inr grid \<Longrightarrow> 1 \<le> a \<Longrightarrow> length array = n \<Longrightarrow>
   length grid = n \<and> (\<forall>i<a. grid ! i = array ! i)
   \<and> (\<forall>i. a \<le> i \<and> i < n \<longrightarrow> next_row fc f r cols (grid ! (i - 1)) = Inr (grid ! i))"
proof (induction "n - a" arbitrary: a array)
  case 0
  then have e: "[a..<n] = []" and "n \<le> a" by simp_all
  from "0.prems"(1) have "grid = array" unfolding e by simp
  with \<open>n \<le> a\<close> "0.prems"(3) show ?case by auto
next
  case (Suc k)
  then have an: "a < n" by simp
  then have u: "[a..<n] = a # [Suc a..<n]" by (rule upt_conv_Cons)
  from Suc.prems(1) obtain row where row: "next_row fc f r cols (array ! (a - 1)) = Inr row"
    and rest: "evolve_loop fc f r cols [Suc a..<n] (array[a := row]) = Inr grid"
    unfolding u by (auto split: sum.splits)
  have k: "k = n - Suc a" using Suc.hyps(2) by simp
  have ih: "length grid = n \<and> (\<forall>i<Suc a. grid ! i = array[a := row] ! i)
     \<and> (\<forall>i. Suc a \<le> i \<and> i < n \<longrightarrow> next_row fc f r cols (grid ! (i - 1)) = Inr (grid ! i))"
    using Suc.hyps(1) [OF k rest] Suc.prems(3) by simp
  have old: "grid ! i = array ! i" if "i < a" for i
    using ih that by simp
  have new: "grid ! a = row"
    using ih an Suc.prems(3) by simp
  have "grid ! (a - 1) = array ! (a - 1)"
    using old [of "a - 1"] Suc.prems(2) by simp
  with row new have here: "next_row fc f r cols (grid ! (a - 1)) = Inr (grid ! a)" by simp
  have "next_row fc f r cols (grid ! (i - 1)) = Inr (grid ! i)" if "a \<le> i" "i < n" for i
  proof (cases "i = a")
    case True
    with here show ?thesis by simp
  next
    case False
    with that have "Suc a \<le> i" by simp
    with ih that(2) show ?thesis by blast
  qed
  with ih old show ?case by blast
qed

lemma evolve_loop_returns:
  assumes step: "\<And>cells. length cells = cols \<Longrightarrow> \<exists>row. next_row fc f r cols cells = Inr row"
  shows "length array = n \<Longrightarrow> 1 \<le> a \<Longrightarrow> \<forall>row\<in>set array. length row = cols \<Longrightarrow>
    \<exists>grid. evolve_loop fc f r cols [a..<n] array = Inr grid \<and> (\<forall>row\<in>set grid. length row = cols)"
proof (induction "n - a" arbitrary: a array)
  case 0
  then have "[a..<n] = []" by simp
  with 0 show ?case by simp
next
  case (Suc k)
  then have an: "a < n" by simp
  then have u: "[a..<n] = a # [Suc a..<n]" by (rule upt_conv_Cons)
  have "a - 1 < length array" using an Suc.prems(1) by simp
  then have "array ! (a - 1) \<in> set array" by (rule nth_mem)
  with Suc.prems(3) have "length (array ! (a - 1)) = cols" by blast
  from step [OF this] obtain row where row: "next_row fc f r cols (array ! (a - 1)) = Inr row"
    by blast
  have len: "length row = cols" using row by (rule next_row_length)
  have rows: "\<forall>x\<in>set (array[a := row]). length x = cols"
    using Suc.prems(3) len set_update_subset_insert [of array a row] by auto
  have k: "k = n - Suc a" using Suc.hyps(2) by simp
  have "\<exists>grid. evolve_loop fc f r cols [Suc a..<n] (array[a := row]) = Inr grid
      \<and> (\<forall>row\<in>set grid. length row = cols)"
    using Suc.hyps(1) [OF k _ _ rows] Suc.prems(1) by simp
  then show ?case unfolding u using row by simp
qed

lemma evolve_rows:
  assumes "evolve fc init n_steps f r = Inr grid"
  shows "1 \<le> n_steps \<and> length grid = n_steps
    \<and> assign_row fc (length init) init = Inr (grid ! 0)
    \<and> (\<forall>i. 1 \<le> i \<and> i < n_steps \<longrightarrow>
          next_row fc f r (length init) (grid ! (i - 1)) = Inr (grid ! i))"
proof -
  from assms have n: "1 \<le> n_steps"
    by (cases "n_steps = 0") (simp_all add: evolve_def)
  with assms obtain row0 where r0: "assign_row fc (length init) init = Inr row0"
    and loop: "evolve_loop fc f r (length init) [1..<n_steps]
        ((replicate n_steps (replicate (length init) (0::int)))[0 := row0]) = Inr grid"
    by (auto simp: evolve_def Let_def split: sum.splits)
  let ?array = "(replicate n_steps (replicate (length init) (0::int)))[0 := row0]"
  from evolve_loop_upt [OF loop] have "length grid = n_steps"
    and "\<forall>i<1. grid ! i = ?array ! i"
    and "\<forall>i. 1 \<le> i \<and> i < n_steps \<longrightarrow> next_row fc f r (length init) (grid ! (i - 1)) = Inr (grid ! i)"
    by simp_all
  moreover from this(2) n have "grid ! 0 = row0" by simp
  ultimately show ?thesis using n r0 by blast
qed

lemma evolve_row_length:
  assumes "evolve fc init n_steps f r = Inr grid" and "i < n_steps"
  shows "length (grid ! i) = length init"
proof (cases "i = 0")
  case True
  from evolve_rows [OF assms(1)] have "assign_row fc (length init) init = Inr (grid ! 0)"
    by blast
  then have "length (grid ! 0) = length init" by (rule assign_row_length)
  with True show ?thesis by simp
next
  case False
  with evolve_rows [OF assms(1)] assms(2)
  have "next_row fc f r (length init) (grid ! (i - 1)) = Inr (grid ! i)" by simp
  then show ?thesis by (rule next_row_length)
qed

lemma evolve_shape:
  assumes "1 \<le> r" and "r \<le> length init" and "1 \<le> n_steps"
    and "list_all in_int64 init" and "\<forall>s c. c < length init \<longrightarrow> in_int64 (f s c)"
  shows "\<exists>grid. evolve fc init n_steps f r = Inr grid \<and> length grid = n_steps
     \<and> (\<forall>row\<in>set grid. length row = length init) \<and> grid ! 0 = init"
proof -
  let ?cols = "length init"
  let ?array = "(replicate n_steps (replicate ?cols (0::int)))[0 := init]"
  have r0: "assign_row fc ?cols init = Inr init"
    using assms(4) by (rule assign_row_in_range)
  have step: "\<exists>row. next_row fc f r ?cols cells = Inr row" if "length cells = ?cols" for cells
    using next_row_periodic [OF assms(1), of cells f fc] assms(2,5) that by simp
  have rows: "\<forall>row\<in>set ?array. length row = ?cols"
    using set_update_subset_insert [of "replicate n_steps (replicate ?cols (0::int))" 0 init]
    by auto
  have "\<exists>grid. evolve_loop fc f r ?cols [1..<n_steps] ?array = Inr grid
      \<and> (\<forall>row\<in>set grid. length row = ?cols)"
    using step by (intro evolve_loop_returns [OF _ _ _ rows]) simp_all
  then obtain grid where g: "evolve_loop fc f r ?cols [1..<n_steps] ?array = Inr grid"
    and l: "\<forall>row\<in>set grid. length row = ?cols" by blast
  have e: "evolve fc init n_steps f r = Inr grid"
    using assms(3) g by (simp add: evolve_def Let_def r0)
  from evolve_rows [OF e] r0 have "grid ! 0 = init" by simp
  with evolve_rows [OF e] l e show ?thesis by blast
qed

lemma window_states_example:
  "window_states [A, B, C] 1 = Inr [[C, A, B], [A, B, C], [B, C, A]]"
proof -
  have u: "[0..<3] = [0, 1, 2 :: nat]" by (simp add: numeral_3_eq_3)
  have "neighbourhood 1 [A, B, C] 0 = [C, A, B]"
    and "neighbourhood 1 [A, B, C] 1 = [A, B, C]"
    and "neighbourhood 1 [A, B, C] (Suc (Suc 0)) = [B, C, A]"
    by (simp_all add: neighbourhood_def u)
  then have "map (neighbourhood 1 [A, B, C]) [0..<length [A, B, C]]
      = [[C, A, B], [A, B, C], [B, C, A]]"
    by (simp add: u)
  moreover have "window_states [A, B, C] 1
      = Inr (map (neighbourhood 1 [A, B, C]) [0..<length [A, B, C]])"
    by (rule window_states_periodic) simp_all
  ultimately show ?thesis by (simp only:)
qed

text \<open>
  C1. Periodic neighbourhoods in \<open>evolve\<close>: in a run of \<open>evolve\<close> that returns a grid, with a
  radius \<open>r\<close> such that \<open>1 \<le> r \<le> N\<close>, at every step \<open>i\<close> the list \<open>states\<close> built from row
  \<open>i - 1\<close> has one neighbourhood for each of the \<open>N\<close> cells; the one that the rule function
  receives together with the cell index \<open>c\<close> has exactly \<open>2 * r + 1\<close> elements, and its
  element \<open>j\<close> is the state of row \<open>i - 1\<close> at index \<open>(c + j - r) mod N\<close>, that is the states
  at \<open>(c - r) mod N, \<dots>, c, \<dots>, (c + r) mod N\<close> in this order; row \<open>i\<close> of the grid is the
  list of the values of the rule function on these neighbourhoods, as the assignment
  stores it. For the row \<open>[A, B, C]\<close> and radius 1 the neighbourhoods are \<open>[C, A, B]\<close>,
  \<open>[A, B, C]\<close> and \<open>[B, C, A]\<close>.
\<close>

theorem periodic_neighbourhood:
  assumes "evolve fc init n_steps f r = Inr grid" and "1 \<le> i" and "i < n_steps"
    and "1 \<le> r" and "r \<le> length init" and "c < length init"
  shows "\<exists>states. window_states (grid ! (i - 1)) r = Inr states
      \<and> length states = length init
      \<and> next_row fc f r (length init) (grid ! (i - 1)) = Inr (grid ! i)
      \<and> assign_row fc (length init) (apply_row f states) = Inr (grid ! i)
      \<and> apply_row f states ! c = f (states ! c) c
      \<and> length (states ! c) = 2 * r + 1
      \<and> (\<forall>j<2 * r + 1. states ! c ! j
            = grid ! (i - 1) ! nat ((int c + int j - int r) mod int (length init)))
      \<and> window_states [A, B, C] 1 = Inr [[C, A, B], [A, B, C], [B, C, A]]"
proof -
  let ?row = "grid ! (i - 1)"
  let ?states = "map (neighbourhood r ?row) [0..<length ?row]"
  have "i - 1 < n_steps" using assms(3) by linarith
  with assms(1) have len: "length ?row = length init" by (rule evolve_row_length)
  have rl: "r \<le> length ?row" using assms(5) by (simp only: len)
  have cl: "c < length ?row" using assms(6) by (simp only: len)
  have w: "window_states ?row r = Inr ?states"
    using assms(4) rl by (rule window_states_periodic)
  have l: "length ?states = length init" using len by simp
  have step: "next_row fc f r (length init) ?row = Inr (grid ! i)"
    using evolve_rows [OF assms(1)] assms(2,3) by blast
  then have st: "assign_row fc (length init) (apply_row f ?states) = Inr (grid ! i)"
    unfolding next_row_def w by (simp only: sum.case)
  have n: "?states ! c = neighbourhood r ?row c"
    using cl by simp
  have a: "length (?states ! c) = 2 * r + 1"
    unfolding n by (simp add: neighbourhood_def)
  have b: "\<forall>j<2 * r + 1. ?states ! c ! j
      = ?row ! nat ((int c + int j - int r) mod int (length init))"
    unfolding n using len by (simp add: neighbourhood_def del: upt_Suc)
  have "apply_row f ?states ! c = f (neighbourhood r ?row c) c"
    using cl by (simp add: apply_row_map del: upt_Suc)
  then have d: "apply_row f ?states ! c = f (?states ! c) c"
    by (simp only: n)
  have e: "window_states [A, B, C] 1 = Inr [[C, A, B], [A, B, C], [B, C, A]]"
    by (rule window_states_example)
  from w l step st d a b e show ?thesis by blast
qed

theorem periodic_neighbourhood_witness:
  "evolve indefinite_cast [10, 20, 30, 40] 2 cell_index_rule 2
     = Inr [[10, 20, 30, 40], [0, 1, 2, 3]]
   \<and> window_states ([[10, 20, 30, 40], [0, 1, 2, 3 :: int]] ! (1 - 1)) 2
     = Inr [[30, 40, 10, 20, 30], [40, 10, 20, 30, 40], [10, 20, 30, 40, 10], [20, 30, 40, 10, 20]]
   \<and> assign_row indefinite_cast (length [10, 20, 30, 40 :: int])
        (apply_row cell_index_rule
          [[30, 40, 10, 20, 30], [40, 10, 20, 30, 40], [10, 20, 30, 40, 10], [20, 30, 40, 10, 20]])
     = Inr ([[10, 20, 30, 40], [0, 1, 2, 3]] ! 1)"
proof -
  have e: "evolve indefinite_cast [10, 20, 30, 40] 2 cell_index_rule 2
     = Inr [[10, 20, 30, 40], [0, 1, 2, 3]]"
    by code_simp
  have h: "(1::nat) \<le> 1" "(1::nat) < 2" "(1::nat) \<le> 2" "2 \<le> length [10, 20, 30, 40 :: int]"
    "0 < length [10, 20, 30, 40 :: int]"
    by simp_all
  have v: "window_states ([[10, 20, 30, 40], [0, 1, 2, 3 :: int]] ! (1 - 1)) 2
     = Inr [[30, 40, 10, 20, 30], [40, 10, 20, 30, 40], [10, 20, 30, 40, 10], [20, 30, 40, 10, 20]]"
    by code_simp
  from periodic_neighbourhood [OF e h, where A = "0::int" and B = 0 and C = 0]
  obtain states where "window_states ([[10, 20, 30, 40], [0, 1, 2, 3 :: int]] ! (1 - 1)) 2 = Inr states"
    and "assign_row indefinite_cast (length [10, 20, 30, 40 :: int]) (apply_row cell_index_rule states)
         = Inr ([[10, 20, 30, 40], [0, 1, 2, 3]] ! 1)"
    by blast
  with v e show ?thesis by simp
qed

text \<open>
  C2, as the claim is written, fails in two ways. For a radius above the length of the
  row: with three cells and radius 4 there is a single window, the rule is applied once,
  for cell 0, and its value is broadcast to the whole row; with the rule that returns the
  index of the cell, the row after \<open>[5, 6, 7]\<close> is \<open>[0, 0, 0]\<close>, not the values of the rule at
  the cells 0, 1 and 2. For a rule whose values do not fit the 64-bit cells of the grid:
  with the rule that returns \<open>2^63\<close> and radius 1, the row after \<open>[0, 1, 0]\<close> holds \<open>-2^63\<close>
  in every cell, not the values of the rule.
\<close>

theorem evolve_wide_radius_counterexample:
  "evolve indefinite_cast [5, 6, 7] 2 cell_index_rule 4 = Inr [[5, 6, 7], [0, 0, 0]]
   \<and> [[5, 6, 7], [0, 0, 0]] ! 1
       \<noteq> [cell_index_rule (neighbourhood 4 ([[5, 6, 7], [0, 0, 0]] ! 0) 0) 0,
           cell_index_rule (neighbourhood 4 ([[5, 6, 7], [0, 0, 0]] ! 0) 1) 1,
           cell_index_rule (neighbourhood 4 ([[5, 6, 7], [0, 0, 0]] ! 0) 2) 2]
   \<and> evolve indefinite_cast [0, 1, 0] 2 top_bit_rule 1
       = Inr [[0, 1, 0], [- (2 ^ 63), - (2 ^ 63), - (2 ^ 63)]]
   \<and> [[0, 1, 0], [- (2 ^ 63), - (2 ^ 63), - (2 ^ 63)]] ! 1
       \<noteq> [top_bit_rule (neighbourhood 1 ([[0, 1, 0], [- (2 ^ 63), - (2 ^ 63), - (2 ^ 63)]] ! 0) 0) 0,
           top_bit_rule (neighbourhood 1 ([[0, 1, 0], [- (2 ^ 63), - (2 ^ 63), - (2 ^ 63)]] ! 0) 1) 1,
           top_bit_rule (neighbourhood 1 ([[0, 1, 0], [- (2 ^ 63), - (2 ^ 63), - (2 ^ 63)]] ! 0) 2) 2]"
proof -
  have "evolve indefinite_cast [5, 6, 7] 2 cell_index_rule 4 = Inr [[5, 6, 7], [0, 0, 0]]"
    by code_simp
  moreover have "evolve indefinite_cast [0, 1, 0] 2 top_bit_rule 1
       = Inr [[0, 1, 0], [- (2 ^ 63), - (2 ^ 63), - (2 ^ 63)]]"
    by code_simp
  ultimately show ?thesis by (simp add: cell_index_rule_def top_bit_rule_def)
qed

text \<open>
  C2, amended. Synchronous update for a radius that does not exceed the length of the
  row and a rule function whose values fit the 64-bit cells of the grid: when \<open>evolve\<close>
  returns a grid, every row \<open>i\<close> with \<open>1 \<le> i < n_steps\<close> is the list of the values of the
  rule function on the periodic neighbourhood of each cell \<open>c\<close> in row \<open>i - 1\<close> of the
  returned grid, and on \<open>c\<close>; so row \<open>i\<close> is a function of row \<open>i - 1\<close> alone.
\<close>

theorem evolve_synchronous:
  assumes "r \<le> length init" and "\<forall>s c. c < length init \<longrightarrow> in_int64 (f s c)"
    and "evolve fc init n_steps f r = Inr grid"
    and "1 \<le> i" and "i < n_steps"
  shows "grid ! i = map (\<lambda>c. f (neighbourhood r (grid ! (i - 1)) c) c) [0..<length init]"
proof -
  have "i - 1 < n_steps" using assms(5) by linarith
  with assms(3) have len: "length (grid ! (i - 1)) = length init"
    by (rule evolve_row_length)
  have "next_row fc f r (length init) (grid ! (i - 1)) = Inr (grid ! i)"
    using evolve_rows [OF assms(3)] assms(4,5) by blast
  then have n: "next_row fc f r (length (grid ! (i - 1))) (grid ! (i - 1)) = Inr (grid ! i)"
    by (simp only: len)
  have r: "r \<le> length (grid ! (i - 1))" using assms(1) by (simp only: len)
  have v: "\<forall>s c. c < length (grid ! (i - 1)) \<longrightarrow> in_int64 (f s c)"
    using assms(2) by (simp only: len)
  from next_row_synchronous [OF r v n] show ?thesis by (simp only: len)
qed

theorem evolve_synchronous_witness:
  "evolve indefinite_cast [5, 6, 7] 3 cell_index_rule 1 = Inr [[5, 6, 7], [0, 1, 2], [0, 1, 2]]
   \<and> [[5, 6, 7], [0, 1, 2], [0, 1, 2]] ! 2
       = map (\<lambda>c. cell_index_rule (neighbourhood 1 ([[5, 6, 7], [0, 1, 2], [0, 1, 2]] ! (2 - 1)) c) c)
           [0..<length [5, 6, 7 :: int]]"
proof -
  have e: "evolve indefinite_cast [5, 6, 7] 3 cell_index_rule 1
      = Inr [[5, 6, 7], [0, 1, 2], [0, 1, 2]]"
    by code_simp
  have h: "1 \<le> length [5, 6, 7 :: int]" "(1::nat) \<le> 2" "(2::nat) < 3" by simp_all
  have v: "\<forall>s c. c < length [5, 6, 7 :: int] \<longrightarrow> in_int64 (cell_index_rule s c)"
    by (simp add: in_int64_def cell_index_rule_def)
  from evolve_synchronous [OF h(1) v e h(2,3)] e show ?thesis by blast
qed

lemma evolve_radius_zero:
  assumes "1 \<le> length init" and "2 \<le> n_steps" and "list_all in_int64 init"
  shows "evolve fc init n_steps f 0 = Inl ValueError"
proof -
  let ?array = "(replicate n_steps (replicate (length init) (0::int)))[0 := init]"
  have r0: "assign_row fc (length init) init = Inr init"
    using assms(3) by (rule assign_row_in_range)
  have u: "[1..<n_steps] = 1 # [Suc 1..<n_steps]"
    using assms(2) by (intro upt_conv_Cons) simp
  have z: "?array ! (1 - 1) = init" using assms(2) by simp
  have "evolve_loop fc f 0 (length init) [1..<n_steps] ?array = Inl ValueError"
    unfolding u evolve_loop.simps z by (simp add: next_row_radius_zero [OF assms(1)])
  with assms(2) show ?thesis by (simp add: evolve_def Let_def r0)
qed

text \<open>
  C3 at radius 0: the left padding \<^verbatim>\<open>arr[-window_size//2+1:]\<close> is \<^verbatim>\<open>arr[0:]\<close>, the
  whole row, so there are twice as many windows as cells and the assignment of the new
  row raises \<open>ValueError\<close>; no grid is returned.
\<close>

theorem evolve_radius_zero_fails:
  "evolve fc [0, 1, 0] 2 f 0 = Inl ValueError"
  by (rule evolve_radius_zero) (simp_all add: in_int64_def)

section \<open>Properties of the random rule table generator\<close>

lemma neighbourhood_states_map:
  assumes "2 \<le> k" and "k \<le> 36"
  shows "neighbourhood_states k n js
    = Inr (map (\<lambda>i. zfill (rev (repr_digits (nat k) i)) n) js)"
proof (induction js)
  case Nil
  show ?case by simp
next
  case (Cons i js)
  have "base_repr (int i) k = Inr (rev (repr_digits (nat k) (nat (int i))))"
    using assms by (intro base_repr_nonneg) simp_all
  then show ?case by (simp add: Cons.IH)
qed

lemma zfill_digit_string:
  assumes "2 \<le> b" and "b \<le> 36" and "1 \<le> m" and "i < b ^ m"
  shows "zfill (rev (repr_digits b i)) (int m) = digit_string b m i"
proof (rule nth_equalityI)
  have le: "length (repr_digits b i) \<le> m"
    using assms(4) by (simp only: repr_digits_length [OF assms(1,3)])
  have m: "0 < m" using assms(3) by simp
  show len: "length (zfill (rev (repr_digits b i)) (int m)) = length (digit_string b m i)"
    using rule_string_nth(2) [OF assms(1,2) le m] by (simp add: digit_string_def)
  fix p assume "p < length (zfill (rev (repr_digits b i)) (int m))"
  then have p: "p < m" using len by (simp add: digit_string_def)
  then have j: "m - 1 - p < m" and e: "m - 1 - (m - 1 - p) = p" by simp_all
  from rule_string_nth(1) [OF assms(1,2) le j]
  have "zfill (rev (repr_digits b i)) (int m) ! p = digit_chars ! ((i div b ^ (m - 1 - p)) mod b)"
    by (simp only: e)
  with p show "zfill (rev (repr_digits b i)) (int m) ! p = digit_string b m i ! p"
    by (simp add: digit_string_def)
qed

lemma neighbourhood_states_digit_strings:
  assumes "2 \<le> k" and "k \<le> 36" and "1 \<le> m"
  shows "neighbourhood_states k (int m) [0..<nat k ^ m]
    = Inr (map (digit_string (nat k) m) [0..<nat k ^ m])"
proof -
  have b: "2 \<le> nat k" "nat k \<le> 36" using assms(1,2) by simp_all
  have "map (\<lambda>i. zfill (rev (repr_digits (nat k) i)) (int m)) [0..<nat k ^ m]
      = map (digit_string (nat k) m) [0..<nat k ^ m]"
    by (rule map_cong [OF refl]) (simp add: zfill_digit_string [OF b assms(3)])
  then show ?thesis
    by (simp only: neighbourhood_states_map [OF assms(1,2)])
qed

lemma digit_chars_inj:
  assumes "d < 36" and "e < 36" and "digit_chars ! d = digit_chars ! e"
  shows "d = e"
proof -
  have "Some d = digit_value (digit_chars ! d)"
    using assms(1) by (rule digit_chars_value [symmetric])
  also have "\<dots> = digit_value (digit_chars ! e)"
    by (rule arg_cong [OF assms(3)])
  also have "\<dots> = Some e"
    using assms(2) by (rule digit_chars_value)
  finally show ?thesis by (simp only: option.inject)
qed

lemma digits_determine:
  fixes i j :: nat
  assumes "\<forall>p<m. (i div b ^ p) mod b = (j div b ^ p) mod b"
  shows "i mod b ^ m = j mod b ^ m"
  using assms
proof (induction m arbitrary: i j)
  case 0
  show ?case by simp
next
  case (Suc m)
  have "(i div b div b ^ p) mod b = (j div b div b ^ p) mod b" if "p < m" for p
  proof -
    from that have "Suc p < Suc m" by simp
    with Suc.prems have "(i div b ^ Suc p) mod b = (j div b ^ Suc p) mod b" by blast
    then show ?thesis by (simp add: div_mult2_eq)
  qed
  then have ih: "(i div b) mod b ^ m = (j div b) mod b ^ m"
    by (intro Suc.IH) simp
  have "(i div b ^ 0) mod b = (j div b ^ 0) mod b"
    using Suc.prems by blast
  then have z: "i mod b = j mod b" by simp
  have "i mod b ^ Suc m = b * ((i div b) mod b ^ m) + i mod b"
    by (simp add: mod_mult2_eq)
  also have "\<dots> = b * ((j div b) mod b ^ m) + j mod b"
    by (simp only: ih z)
  also have "\<dots> = j mod b ^ Suc m"
    by (simp add: mod_mult2_eq)
  finally show ?case .
qed

lemma digit_string_length: "length (digit_string b m i) = m"
  by (simp add: digit_string_def)

lemma digit_string_nth:
  "p < m \<Longrightarrow> digit_string b m i ! p = digit_chars ! ((i div b ^ (m - 1 - p)) mod b)"
  by (simp add: digit_string_def)

lemma digit_string_inj:
  assumes "2 \<le> b" and "b \<le> 36" and "i < b ^ m" and "j < b ^ m"
    and "digit_string b m i = digit_string b m j"
  shows "i = j"
proof -
  have "(i div b ^ p) mod b = (j div b ^ p) mod b" if "p < m" for p
  proof -
    from that have q: "m - 1 - p < m" and e: "m - 1 - (m - 1 - p) = p" by simp_all
    have "digit_string b m i ! (m - 1 - p) = digit_string b m j ! (m - 1 - p)"
      by (simp only: assms(5))
    then have "digit_chars ! ((i div b ^ p) mod b) = digit_chars ! ((j div b ^ p) mod b)"
      by (simp only: digit_string_nth [OF q] e)
    moreover have "(i div b ^ p) mod b < 36" "(j div b ^ p) mod b < 36"
      using assms(1,2) by (auto intro: less_le_trans [OF mod_less_divisor])
    ultimately show ?thesis by (intro digit_chars_inj)
  qed
  then have "i mod b ^ m = j mod b ^ m" by (intro digits_determine) simp
  with assms(3,4) show ?thesis by simp
qed

lemma digit_strings_distinct:
  assumes "2 \<le> b" and "b \<le> 36"
  shows "distinct (map (digit_string b m) [0..<b ^ m])"
proof -
  have "inj_on (digit_string b m) (set [0..<b ^ m])"
    by (rule inj_onI) (auto intro: digit_string_inj [OF assms])
  then show ?thesis by (simp add: distinct_map)
qed

lemma msb_digits_exist:
  fixes b :: nat
  assumes "2 \<le> b"
  shows "\<forall>d\<in>set ds. d < b \<Longrightarrow>
    \<exists>i<b ^ length ds. \<forall>p<length ds. (i div b ^ (length ds - 1 - p)) mod b = ds ! p"
proof (induction ds)
  case Nil
  show ?case by simp
next
  case (Cons d ds)
  then obtain i where i: "i < b ^ length ds"
    and ih: "\<forall>p<length ds. (i div b ^ (length ds - 1 - p)) mod b = ds ! p"
    by auto
  from Cons.prems have d: "d < b" by simp
  let ?n = "length ds"
  let ?j = "d * b ^ ?n + i"
  have "?j < (d + 1) * b ^ ?n" using i by (simp add: algebra_simps)
  also have "\<dots> \<le> b * b ^ ?n" using d by (intro mult_le_mono1) simp
  finally have bound: "?j < b ^ length (d # ds)" by simp
  have dig: "(?j div b ^ (length (d # ds) - 1 - p)) mod b = (d # ds) ! p"
    if p: "p < length (d # ds)" for p
  proof (cases p)
    case 0
    have pos: "b ^ ?n \<noteq> 0" using assms by simp
    have "?j div b ^ ?n = d + i div b ^ ?n" using pos by (rule div_mult_self3)
    also have "\<dots> = d" using i by simp
    finally have "?j div b ^ ?n = d" .
    with 0 d show ?thesis by simp
  next
    case (Suc p')
    with p have p': "p' < ?n" by simp
    let ?e = "?n - 1 - p'"
    have split: "?n = ?e + Suc p'" using p' by simp
    have "b ^ ?n = b ^ Suc p' * b ^ ?e"
      by (subst split) (simp only: power_add mult.commute)
    then have "?j = i + d * b ^ Suc p' * b ^ ?e" by (simp add: algebra_simps)
    then have "?j div b ^ ?e = i div b ^ ?e + d * b ^ Suc p'"
      using assms by (simp only: div_mult_self1 [of "b ^ ?e"]) simp
    then have "(?j div b ^ ?e) mod b = (i div b ^ ?e) mod b"
      by (simp add: algebra_simps)
    with ih p' Suc show ?thesis by simp
  qed
  from bound dig show ?case by blast
qed

lemma digit_strings_set:
  assumes "2 \<le> b" and "b \<le> 36"
  shows "set (map (digit_string b m) [0..<b ^ m]) = neighbourhood_strings b m"
proof (rule set_eqI)
  fix s
  show "s \<in> set (map (digit_string b m) [0..<b ^ m]) \<longleftrightarrow> s \<in> neighbourhood_strings b m"
  proof
    assume "s \<in> set (map (digit_string b m) [0..<b ^ m])"
    then obtain i where s: "s = digit_string b m i" by auto
    have "\<exists>d<b. c = digit_chars ! d" if "c \<in> set s" for c
    proof -
      from that obtain p where "p < m" "c = digit_string b m i ! p"
        unfolding s by (auto simp: in_set_conv_nth digit_string_length)
      then have "c = digit_chars ! ((i div b ^ (m - 1 - p)) mod b)"
        by (simp add: digit_string_nth)
      moreover have "(i div b ^ (m - 1 - p)) mod b < b" using assms(1) by simp
      ultimately show ?thesis by blast
    qed
    then show "s \<in> neighbourhood_strings b m"
      by (simp add: neighbourhood_strings_def s digit_string_length)
  next
    assume "s \<in> neighbourhood_strings b m"
    then have len: "length s = m" and ch: "\<forall>c\<in>set s. \<exists>d<b. c = digit_chars ! d"
      by (simp_all add: neighbourhood_strings_def)
    let ?ds = "map (\<lambda>c. the (digit_value c)) s"
    have dv: "the (digit_value c) < b \<and> digit_chars ! the (digit_value c) = c"
      if "c \<in> set s" for c
    proof -
      from ch that obtain d where d: "d < b" "c = digit_chars ! d" by blast
      then have "d < 36" using assms(2) by simp
      then have "digit_value c = Some d" unfolding d(2) by (rule digit_chars_value)
      with d show ?thesis by simp
    qed
    then have "\<forall>d\<in>set ?ds. d < b" by auto
    from msb_digits_exist [OF assms(1) this] obtain i where i: "i < b ^ m"
      and dig: "\<forall>p<m. (i div b ^ (m - 1 - p)) mod b = ?ds ! p"
      by (auto simp: len)
    have "digit_string b m i = s"
    proof (rule nth_equalityI)
      show "length (digit_string b m i) = length s" by (simp add: digit_string_length len)
    next
      fix p assume "p < length (digit_string b m i)"
      then have p: "p < m" by (simp add: digit_string_length)
      then have "s ! p \<in> set s" by (simp add: len)
      from dv [OF this] have "digit_chars ! the (digit_value (s ! p)) = s ! p" by simp
      moreover have "?ds ! p = the (digit_value (s ! p))" using p by (simp add: len)
      ultimately show "digit_string b m i ! p = s ! p"
        using p dig by (simp add: digit_string_nth)
    qed
    with i show "s \<in> set (map (digit_string b m) [0..<b ^ m])" by force
  qed
qed

lemma neighbourhood_strings_rev:
  "s \<in> neighbourhood_strings b m \<Longrightarrow> rev s \<in> neighbourhood_strings b m"
  by (simp add: neighbourhood_strings_def)

lemma map_of_dict_set: "map_of (dict_set t key v) = (map_of t)(key \<mapsto> v)"
  by (induction t) (auto simp: fun_eq_iff)

lemma dict_set_fresh: "key \<notin> fst ` set t \<Longrightarrow> dict_set t key v = t @ [(key, v)]"
  by (induction t) auto

lemma uniform_palindrome:
  assumes "length (remdups s) = 1"
  shows "rev s = s"
proof -
  from assms obtain c where "remdups s = [c]"
    by (cases "remdups s") auto
  then have "set s = {c}" by (metis set_remdups list.simps(15) empty_set)
  then have "s = replicate (length s) c"
    by (intro replicate_eqI) auto
  then have "rev s = rev (replicate (length s) c)" by simp
  also have "\<dots> = replicate (length s) c" by simp
  also have "\<dots> = s" using \<open>s = replicate (length s) c\<close> by simp
  finally show ?thesis .
qed

lemma random_choice_mem: "random_choice xs d = Inr v \<Longrightarrow> v \<in> set xs"
  by (auto simp: random_choice_def split: if_splits)

lemma table_state_updates:
  "st\<lparr>table := a, quiescent_state_count := c\<rparr>
     = \<lparr>table = a, quiescent_state_count = c, draws_used = draws_used st\<rparr>"
  "st\<lparr>table := a, quiescent_state_count := c, draws_used := d\<rparr>
     = \<lparr>table = a, quiescent_state_count = c, draws_used = d\<rparr>"
  "st\<lparr>table := a, draws_used := d\<rparr>
     = \<lparr>table = a, quiescent_state_count = quiescent_state_count st, draws_used = d\<rparr>"
  by (cases st; simp)+

lemma table_loop_step:
  assumes "table_loop k q lam strong isotropic other_states rnd (state # rest) st = Inr st'"
    and "q \<notin> set other_states"
  shows "\<exists>v d. table_loop k q lam strong isotropic other_states rnd rest
            \<lparr>table = dict_set (table st) state v,
             quiescent_state_count = quiescent_state_count st + (if v = q then 1 else 0),
             draws_used = d\<rparr> = Inr st'
          \<and> ((strong \<and> length (remdups state) = 1)
              \<or> (isotropic \<and> map_of (table st) (rev state) = Some v)
              \<or> (isotropic \<longrightarrow> map_of (table st) (rev state) = None))"
proof (cases "strong \<and> length (remdups state) = 1")
  case True
  with assms(1) obtain v where "py_int_char (hd state) k = Inr v"
    and "table_loop k q lam strong isotropic other_states rnd rest
           (st\<lparr>table := dict_set (table st) state v,
               quiescent_state_count :=
                 (if v = q then quiescent_state_count st + 1 else quiescent_state_count st)\<rparr>)
         = Inr st'"
    by (auto split: sum.splits)
  then have "table_loop k q lam strong isotropic other_states rnd rest
            \<lparr>table = dict_set (table st) state v,
             quiescent_state_count = quiescent_state_count st + (if v = q then 1 else 0),
             draws_used = draws_used st\<rparr> = Inr st'"
    by (cases "v = q") (simp_all add: table_state_updates)
  with True show ?thesis by blast
next
  case False
  then have c: "(strong \<and> length (remdups state) = 1) = False" by simp
  note loop = assms(1) [unfolded table_loop.simps c if_False]
  show ?thesis
  proof (cases "if isotropic then map_of (table st) (rev state) else None")
    case (Some v)
    then have iso: "isotropic" "map_of (table st) (rev state) = Some v"
      by (simp_all split: if_splits)
    from loop iso
    have "table_loop k q lam strong isotropic other_states rnd rest
           (st\<lparr>table := dict_set (table st) state v,
               quiescent_state_count :=
                 (if v = q then quiescent_state_count st + 1 else quiescent_state_count st)\<rparr>)
         = Inr st'"
      by simp
    then have "table_loop k q lam strong isotropic other_states rnd rest
            \<lparr>table = dict_set (table st) state v,
             quiescent_state_count = quiescent_state_count st + (if v = q then 1 else 0),
             draws_used = draws_used st\<rparr> = Inr st'"
      by (cases "v = q") (simp_all add: table_state_updates)
    with iso show ?thesis by blast
  next
    case None
    then have none: "isotropic \<longrightarrow> map_of (table st) (rev state) = None"
      by (simp split: if_splits)
    show ?thesis
    proof (cases "uniform_draw rnd (draws_used st) < float_sub 1 lam")
      case True
      with loop none
      have "table_loop k q lam strong isotropic other_states rnd rest
             (st\<lparr>table := dict_set (table st) state q,
                 quiescent_state_count := quiescent_state_count st + 1,
                 draws_used := draws_used st + 1\<rparr>) = Inr st'"
        by (cases isotropic) simp_all
      then have "table_loop k q lam strong isotropic other_states rnd rest
            \<lparr>table = dict_set (table st) state q,
             quiescent_state_count = quiescent_state_count st + (if q = q then 1 else 0),
             draws_used = draws_used st + 1\<rparr> = Inr st'"
        by (simp add: table_state_updates)
      with none show ?thesis by blast
    next
      case no: False
      with loop none obtain v
        where c: "random_choice other_states (choice_draw rnd (draws_used st)) = Inr v"
          and "table_loop k q lam strong isotropic other_states rnd rest
             (st\<lparr>table := dict_set (table st) state v,
                 draws_used := draws_used st + 1\<rparr>) = Inr st'"
        by (cases isotropic) (auto split: sum.splits)
      moreover from random_choice_mem [OF c] assms(2) have "v \<noteq> q" by blast
      ultimately have "table_loop k q lam strong isotropic other_states rnd rest
            \<lparr>table = dict_set (table st) state v,
             quiescent_state_count = quiescent_state_count st + (if v = q then 1 else 0),
             draws_used = draws_used st + 1\<rparr> = Inr st'"
        by (simp add: table_state_updates)
      with none show ?thesis by blast
    qed
  qed
qed

lemma quiescent_entries_snoc:
  "quiescent_entries q (t @ [(s, v)]) = quiescent_entries q t + (if v = q then 1 else 0)"
  by (simp add: quiescent_entries_def)

lemma table_loop_count:
  assumes "table_loop k q lam strong isotropic other_states rnd states st = Inr st'"
    and "q \<notin> set other_states"
    and "distinct states" and "set states \<inter> fst ` set (table st) = {}"
    and "quiescent_state_count st = quiescent_entries q (table st)"
  shows "quiescent_state_count st' = quiescent_entries q (table st')
       \<and> map fst (table st') = map fst (table st) @ states"
  using assms(1,3,4,5)
proof (induction states arbitrary: st)
  case Nil
  then show ?case by simp
next
  case (Cons state rest)
  from table_loop_step [OF Cons.prems(1) assms(2)] obtain v d
    where loop: "table_loop k q lam strong isotropic other_states rnd rest
            \<lparr>table = dict_set (table st) state v,
             quiescent_state_count = quiescent_state_count st + (if v = q then 1 else 0),
             draws_used = d\<rparr> = Inr st'"
    by blast
  let ?st = "\<lparr>table = dict_set (table st) state v,
             quiescent_state_count = quiescent_state_count st + (if v = q then 1 else 0),
             draws_used = d\<rparr>"
  from Cons.prems(3) have fresh: "state \<notin> fst ` set (table st)" by auto
  have t: "table ?st = table st @ [(state, v)]"
    using dict_set_fresh [OF fresh] by simp
  have d: "distinct rest" and n: "state \<notin> set rest" using Cons.prems(2) by simp_all
  have i: "set rest \<inter> fst ` set (table ?st) = {}"
    unfolding t using Cons.prems(3) n by auto
  have c: "quiescent_state_count ?st = quiescent_entries q (table ?st)"
    unfolding t quiescent_entries_snoc using Cons.prems(4) by simp
  from Cons.IH [OF loop d i c] show ?case
    unfolding t by simp
qed

lemma table_loop_symmetric:
  assumes "table_loop k q lam strong True other_states rnd states st = Inr st'"
    and "q \<notin> set other_states"
    and "distinct states" and "set states \<inter> fst ` set (table st) = {}"
    and "mirror_symmetric (table st)"
  shows "mirror_symmetric (table st')"
  using assms(1,3,4,5)
proof (induction states arbitrary: st)
  case Nil
  then show ?case by simp
next
  case (Cons state rest)
  from table_loop_step [OF Cons.prems(1) assms(2)] obtain v d
    where loop: "table_loop k q lam strong True other_states rnd rest
            \<lparr>table = dict_set (table st) state v,
             quiescent_state_count = quiescent_state_count st + (if v = q then 1 else 0),
             draws_used = d\<rparr> = Inr st'"
      and branch: "(strong \<and> length (remdups state) = 1)
              \<or> map_of (table st) (rev state) = Some v
              \<or> map_of (table st) (rev state) = None"
    by blast
  let ?st = "\<lparr>table = dict_set (table st) state v,
             quiescent_state_count = quiescent_state_count st + (if v = q then 1 else 0),
             draws_used = d\<rparr>"
  from Cons.prems(3) have "state \<notin> fst ` set (table st)" by auto
  then have fresh: "map_of (table st) state = None"
    by (simp add: map_of_eq_None_iff)
  have m: "map_of (table ?st) = (map_of (table st))(state \<mapsto> v)"
    by (simp add: map_of_dict_set)
  have sym: "mirror_symmetric (table ?st)"
    unfolding mirror_symmetric_def m
  proof (intro allI impI, elim conjE)
    fix s a w
    assume a: "((map_of (table st))(state \<mapsto> v)) s = Some a"
      and w: "((map_of (table st))(state \<mapsto> v)) (rev s) = Some w"
    show "w = a"
    proof (cases "s = state")
      case True
      with a have av: "a = v" by simp
      show ?thesis
      proof (cases "rev state = state")
        case True
        with w \<open>s = state\<close> av show ?thesis by simp
      next
        case False
        with w \<open>s = state\<close> have r: "map_of (table st) (rev state) = Some w" by simp
        from branch show ?thesis
        proof (elim disjE)
          assume "strong \<and> length (remdups state) = 1"
          then have "rev state = state" by (intro uniform_palindrome) simp
          with False show ?thesis by simp
        next
          assume "map_of (table st) (rev state) = Some v"
          with r av show ?thesis by simp
        next
          assume "map_of (table st) (rev state) = None"
          with r show ?thesis by simp
        qed
      qed
    next
      case False
      with a have a': "map_of (table st) s = Some a" by simp
      show ?thesis
      proof (cases "rev s = state")
        case True
        then have rs: "rev state = s" by (metis rev_rev_ident)
        from True w have wv: "w = v" by simp
        from branch show ?thesis
        proof (elim disjE)
          assume "strong \<and> length (remdups state) = 1"
          then have "rev state = state" by (intro uniform_palindrome) simp
          with rs False show ?thesis by simp
        next
          assume "map_of (table st) (rev state) = Some v"
          with a' rs wv show ?thesis by simp
        next
          assume "map_of (table st) (rev state) = None"
          with a' rs show ?thesis by simp
        qed
      next
        case False
        with w have "map_of (table st) (rev s) = Some w" by simp
        with a' Cons.prems(4) show ?thesis
          unfolding mirror_symmetric_def by blast
      qed
    qed
  qed
  from Cons.prems(3) have "state \<notin> fst ` set (table st)" by auto
  then have t: "table ?st = table st @ [(state, v)]"
    using dict_set_fresh by simp
  have d: "distinct rest" and n: "state \<notin> set rest" using Cons.prems(2) by simp_all
  have i: "set rest \<inter> fst ` set (table ?st) = {}"
    unfolding t using Cons.prems(3) n by auto
  from Cons.IH [OF loop d i sym] show ?case .
qed

lemma table_loop_returns:
  assumes "k \<le> 36" and "other_states \<noteq> []"
    and "\<forall>state\<in>set states. \<exists>d<nat k. hd state = digit_chars ! d"
  shows "\<exists>st'. table_loop k q lam strong isotropic other_states rnd states st = Inr st'"
  using assms(3)
proof (induction states arbitrary: st)
  case Nil
  show ?case by simp
next
  case (Cons state rest)
  then obtain d where d: "d < nat k" "hd state = digit_chars ! d" by auto
  have p: "py_int_char (hd state) k = Inr (int d)"
    unfolding d(2) using d(1) assms(1) by (rule py_int_digit_char)
  obtain v where c: "random_choice other_states (choice_draw rnd (draws_used st)) = Inr v"
    using assms(2) by (simp add: random_choice_def)
  have ih: "\<exists>st'. table_loop k q lam strong isotropic other_states rnd rest st1 = Inr st'" for st1
    using Cons.prems by (intro Cons.IH) simp
  show ?case
  proof (cases "strong \<and> length (remdups state) = 1")
    case True
    then have c1: "(strong \<and> length (remdups state) = 1) = True" by simp
    show ?thesis
      by (simp only: table_loop.simps c1 if_True p sum.case ih)
  next
    case False
    then have c0: "(strong \<and> length (remdups state) = 1) = False" by simp
    show ?thesis
    proof (cases "if isotropic then map_of (table st) (rev state) else None")
      case (Some w)
      show ?thesis
        by (simp only: table_loop.simps c0 if_False Some option.case ih)
    next
      case None
      show ?thesis
      proof (cases "uniform_draw rnd (draws_used st) < float_sub 1 lam")
        case True
        then have u: "(uniform_draw rnd (draws_used st) < float_sub 1 lam) = True" by simp
        show ?thesis
          by (simp only: table_loop.simps c0 if_False None option.case u if_True ih)
      next
        case False
        then have u: "(uniform_draw rnd (draws_used st) < float_sub 1 lam) = False" by simp
        show ?thesis
          by (simp only: table_loop.simps c0 if_False None option.case u c sum.case ih)
      qed
    qed
  qed
qed

lemma digit_string_hd:
  assumes "2 \<le> b" and "1 \<le> m"
  shows "\<exists>d<b. hd (digit_string b m i) = digit_chars ! d"
proof -
  have "digit_string b m i \<noteq> []"
    using assms(2) by (simp add: digit_string_def)
  then have "hd (digit_string b m i) = digit_string b m i ! 0" by (rule hd_conv_nth)
  also have "\<dots> = digit_chars ! ((i div b ^ (m - 1 - 0)) mod b)"
    using assms(2) by (intro digit_string_nth) simp
  finally show ?thesis using assms(1) by (intro exI [of _ "(i div b ^ (m - 1 - 0)) mod b"]) simp
qed

lemma other_states_nonempty:
  assumes "2 \<le> k"
  shows "filter (\<lambda>x. x \<noteq> q) (map int [0..<nat k]) \<noteq> []"
proof -
  have "(0::int) \<in> set (map int [0..<nat k])" "(1::int) \<in> set (map int [0..<nat k])"
    using assms by (auto simp: image_iff intro: bexI [of _ 0] bexI [of _ 1])
  moreover have "(0::int) \<noteq> q \<or> (1::int) \<noteq> q" by simp
  ultimately have "\<exists>x\<in>set (map int [0..<nat k]). x \<noteq> q" by blast
  then show ?thesis by (simp only: filter_empty_conv) blast
qed

lemma round_half_even_nonneg: "0 \<le> x \<Longrightarrow> 0 \<le> round_half_even x"
  by (auto simp: round_half_even_def Let_def)

lemma round_half_even_le:
  assumes "x \<le> of_int n"
  shows "round_half_even x \<le> n"
proof (cases "x - of_int \<lfloor>x\<rfloor> < 1 / 2")
  case True
  then have "round_half_even x = \<lfloor>x\<rfloor>" by (simp add: round_half_even_def Let_def)
  moreover have "\<lfloor>x\<rfloor> \<le> n" using assms by (simp add: floor_le_iff)
  ultimately show ?thesis by simp
next
  case False
  then have "of_int \<lfloor>x\<rfloor> < x" by simp
  then have "of_int \<lfloor>x\<rfloor> < (of_int n :: rat)" using assms by (rule less_le_trans)
  then have "\<lfloor>x\<rfloor> < n" by (simp only: of_int_less_iff)
  moreover have "round_half_even x \<le> \<lfloor>x\<rfloor> + 1"
    by (simp add: round_half_even_def Let_def)
  ultimately show ?thesis by simp
qed

lemma round_half_even_small:
  assumes "0 \<le> x" and "x \<le> 1 / 2"
  shows "round_half_even x = 0"
proof -
  have "\<lfloor>x\<rfloor> = 0" using assms by (intro floor_unique) simp_all
  with assms show ?thesis by (simp add: round_half_even_def Let_def)
qed

lemma pow2_pos: "0 < pow2 e"
  by (simp add: pow2_def)

lemma round_double_unit:
  assumes "0 \<le> x" and "x \<le> 1"
  shows "0 \<le> round_double x \<and> round_double x \<le> 1"
proof (cases "x = 0")
  case True
  then show ?thesis by (simp add: round_double_def)
next
  case False
  define e where "e = max (binary_exponent x) (- 1022)"
  define ulp where "ulp = pow2 (e - 52)"
  have r: "round_double x = of_int (round_half_even (x / ulp)) * ulp"
    using False by (simp add: round_double_def Let_def e_def ulp_def)
  have up: "0 < ulp" unfolding ulp_def by (rule pow2_pos)
  have q: "0 \<le> x / ulp" using assms(1) up by simp
  have lo: "0 \<le> round_double x"
    unfolding r using round_half_even_nonneg [OF q] up by simp
  have hi: "round_double x \<le> 1"
  proof (cases "e - 52 \<le> 0")
    case True
    then have u: "ulp = 1 / 2 ^ nat (52 - e)"
      by (cases "e - 52 = 0") (simp_all add: ulp_def pow2_def)
    have "x / ulp \<le> 1 / ulp" using assms(2) up by (simp add: divide_right_mono)
    also have "1 / ulp = of_int (2 ^ nat (52 - e))" by (simp add: u)
    finally have "round_half_even (x / ulp) \<le> 2 ^ nat (52 - e)"
      by (rule round_half_even_le)
    then have "(of_int (round_half_even (x / ulp)) :: rat) \<le> of_int (2 ^ nat (52 - e))"
      by (simp only: of_int_le_iff)
    then have "of_int (round_half_even (x / ulp)) * ulp \<le> of_int (2 ^ nat (52 - e)) * ulp"
      using up by (simp add: mult_right_mono)
    also have "\<dots> = 1" by (simp add: u)
    finally show ?thesis by (simp only: r)
  next
    case False
    then have "ulp = 2 ^ nat (e - 52)" and "0 < nat (e - 52)"
      by (simp_all add: ulp_def pow2_def)
    then have "2 \<le> ulp"
      by (metis One_nat_def Suc_leI power_increasing power_one_right one_le_numeral)
    then have "x / ulp \<le> 1 / 2"
      using assms by (simp add: divide_le_eq)
    with q have "round_half_even (x / ulp) = 0" by (intro round_half_even_small)
    then show ?thesis by (simp add: r)
  qed
  from lo hi show ?thesis ..
qed

lemma int_true_div_unit:
  assumes "0 \<le> a" and "a \<le> b" and "0 < b"
  shows "int_true_div a b = Inr (round_double (of_int a / of_int b))"
    and "0 \<le> round_double (of_int a / of_int b)"
    and "round_double (of_int a / of_int b) \<le> 1"
proof -
  let ?x = "of_int a / of_int b :: rat"
  have "0 \<le> ?x" using assms(1,3) by simp
  moreover have "?x \<le> 1" using assms(2,3) by (simp add: divide_le_eq)
  ultimately have u: "0 \<le> round_double ?x \<and> round_double ?x \<le> 1"
    by (rule round_double_unit)
  then show "0 \<le> round_double ?x" and "round_double ?x \<le> 1" by simp_all
  have "(1::rat) < pow2 1024" by (simp add: pow2_def)
  with u have "\<not> pow2 1024 \<le> \<bar>round_double ?x\<bar>" by simp
  with assms(3) show "int_true_div a b = Inr (round_double ?x)"
    by (simp add: int_true_div_def Let_def)
qed

lemma float_of_small_int:
  assumes "2 \<le> k" and "k \<le> 36"
  shows "float_of_int k = Inr (of_int k)"
proof -
  have "list_all (\<lambda>k. float_of_int k = Inr (of_int k)) (map int [2..<37])"
    by code_simp
  then have all: "\<forall>j\<in>set (map int [2..<37]). float_of_int j = Inr (of_int j)"
    by (simp only: list_all_iff)
  have "2 \<le> nat k \<and> nat k < 37" using assms by linarith
  then have m: "nat k \<in> set [2..<37]" by (simp only: set_upt atLeastLessThan_iff)
  have "k = int (nat k)" using assms by simp
  with m have "k \<in> set (map int [2..<37])" by (metis image_eqI set_map)
  with all show ?thesis by blast
qed

lemma default_lambda_returns:
  assumes "2 \<le> k" and "k \<le> 36"
  shows "\<exists>l. default_lambda k = Inr l"
proof -
  have "(of_int k :: rat) \<noteq> 0" using assms(1) by simp
  then show ?thesis
    by (simp add: default_lambda_def float_of_small_int [OF assms] float_div_def)
qed

lemma random_rule_table_run:
  assumes "2 \<le> k" and "k \<le> 36" and "valid_quiescent k quiescent_state"
  shows "\<exists>st' q lam.
      random_rule_table k r lambda_val quiescent_state strong isotropic rnd
        = Inr (table st',
               round_double (of_int (k ^ (2 * r + 1) - int (quiescent_entries q (table st')))
                 / of_int (k ^ (2 * r + 1))),
               q)
    \<and> 0 \<le> q \<and> q \<le> k - 1
    \<and> (case quiescent_state of Some q0 \<Rightarrow> q = q0 | None \<Rightarrow> True)
    \<and> table_loop k q lam strong isotropic (filter (\<lambda>x. x \<noteq> q) (map int [0..<nat k])) rnd
          (map (digit_string (nat k) (2 * r + 1)) [0..<nat k ^ (2 * r + 1)])
          \<lparr>table = [], quiescent_state_count = 0, draws_used = 0\<rparr> = Inr st'
    \<and> map fst (table st') = map (digit_string (nat k) (2 * r + 1)) [0..<nat k ^ (2 * r + 1)]
    \<and> int (quiescent_entries q (table st')) \<le> k ^ (2 * r + 1)"
proof -
  let ?m = "2 * r + 1"
  let ?states = "map (digit_string (nat k) ?m) [0..<nat k ^ ?m]"
  let ?init = "\<lparr>table = [], quiescent_state_count = 0, draws_used = 0\<rparr>"
  obtain lam where l: "(case lambda_val of None \<Rightarrow> default_lambda k | Some l \<Rightarrow> Inr l) = Inr lam"
    using default_lambda_returns [OF assms(1,2)] by (cases lambda_val) auto
  define q where "q = (case quiescent_state of None \<Rightarrow> int (randint_draw rnd) mod k | Some q0 \<Rightarrow> q0)"
  let ?others = "filter (\<lambda>x. x \<noteq> q) (map int [0..<nat k])"
  have b: "2 \<le> nat k" "nat k \<le> 36" using assms(1,2) by simp_all
  have n: "2 * int r + 1 = int ?m" and n': "nat (2 * int r + 1) = ?m" by simp_all
  have "0 \<le> k" using assms(1) by simp
  then have T: "nat (k ^ ?m) = nat k ^ ?m" by (rule nat_power_eq)
  have st: "neighbourhood_states k (2 * int r + 1) [0..<nat (k ^ nat (2 * int r + 1))] = Inr ?states"
    unfolding n' T unfolding n
    using assms(1,2) by (intro neighbourhood_states_digit_strings) simp_all
  have qq: "(case quiescent_state of None \<Rightarrow> randint k (randint_draw rnd) | Some q \<Rightarrow> Inr q) = Inr q"
    using assms(1) by (simp add: q_def randint_def split: option.splits)
  have qr: "0 \<le> q \<and> q \<le> k - 1"
    using assms(1,3) by (auto simp: q_def valid_quiescent_def split: option.splits)
  have qc: "(case quiescent_state of Some q0 \<Rightarrow> q = q0 | None \<Rightarrow> True)"
    by (simp add: q_def split: option.splits)
  have hd: "\<forall>state\<in>set ?states. \<exists>d<nat k. hd state = digit_chars ! d"
    using digit_string_hd [OF b(1), of ?m] by auto
  obtain st' where loop: "table_loop k q lam strong isotropic ?others rnd ?states ?init = Inr st'"
    using table_loop_returns [OF assms(2) other_states_nonempty [OF assms(1)] hd] by blast
  have nq: "q \<notin> set ?others" by simp
  have d: "distinct ?states" using b by (rule digit_strings_distinct)
  have e: "set ?states \<inter> fst ` set (table ?init) = {}" by simp
  have c0: "quiescent_state_count ?init = quiescent_entries q (table ?init)"
    by (simp add: quiescent_entries_def)
  from table_loop_count [OF loop nq d e c0]
  have cnt: "quiescent_state_count st' = quiescent_entries q (table st')"
    and keys: "map fst (table st') = ?states" by simp_all
  have "length (table st') = length (map fst (table st'))" by simp
  also have "\<dots> = nat k ^ ?m" by (simp only: keys) simp
  finally have len: "length (table st') = nat k ^ ?m" .
  have "int (nat k ^ ?m) = k ^ ?m" using assms(1) by simp
  with len have leni: "int (length (table st')) = k ^ ?m" by simp
  have "quiescent_entries q (table st') \<le> length (table st')"
    by (simp add: quiescent_entries_def)
  with leni have le: "int (quiescent_entries q (table st')) \<le> k ^ ?m" by simp
  have pos: "0 < k ^ ?m" using assms(1) by simp
  have dv: "int_true_div (k ^ ?m - int (quiescent_state_count st')) (k ^ ?m)
      = Inr (round_double (of_int (k ^ ?m - int (quiescent_entries q (table st'))) / of_int (k ^ ?m)))"
    unfolding cnt using le pos by (intro int_true_div_unit(1)) simp_all
  have "random_rule_table k r lambda_val quiescent_state strong isotropic rnd
        = Inr (table st',
               round_double (of_int (k ^ ?m - int (quiescent_entries q (table st')))
                 / of_int (k ^ ?m)),
               q)"
  proof -
    have st2: "neighbourhood_states k (2 * int r + 1) [0..<nat (k ^ ?m)] = Inr ?states"
      using st by (simp only: n')
    have qv: "(\<not> (0 \<le> q \<and> q \<le> k - 1)) = False" using qr by simp
    show ?thesis
      unfolding random_rule_table_def Let_def n'
      by (simp only: st2 l qq sum.case qv if_False loop dv)
  qed
  with qr qc loop keys le show ?thesis by blast
qed

text \<open>
  C7. Isotropy: for \<open>k\<close> in \<open>[2, 36]\<close>, every radius, every \<open>lambda_val\<close>, a quiescent state
  in \<open>[0, k - 1]\<close> (or none given), either value of \<open>strong_quiescence\<close> and every outcome
  of the random draws, \<open>random_rule_table\<close> with \<open>isotropic\<close> set returns a table whose
  keys are exactly the texts of \<open>2 * r + 1\<close> digits below \<open>k\<close>; the reverse of a key is a key,
  and the table gives a key and its reverse the same value.
\<close>

theorem random_rule_table_isotropic:
  assumes "2 \<le> k" and "k \<le> 36" and "valid_quiescent k quiescent_state"
  shows "\<exists>t lam q.
      random_rule_table k r lambda_val quiescent_state strong_quiescence True rnd = Inr (t, lam, q)
    \<and> fst ` set t = neighbourhood_strings (nat k) (2 * r + 1)
    \<and> (\<forall>s\<in>neighbourhood_strings (nat k) (2 * r + 1).
          rev s \<in> neighbourhood_strings (nat k) (2 * r + 1)
        \<and> (\<exists>v. map_of t s = Some v \<and> map_of t (rev s) = Some v))"
proof -
  let ?m = "2 * r + 1"
  let ?states = "map (digit_string (nat k) ?m) [0..<nat k ^ ?m]"
  let ?init = "\<lparr>table = [], quiescent_state_count = 0, draws_used = 0\<rparr>"
  have b: "2 \<le> nat k" "nat k \<le> 36" using assms(1,2) by simp_all
  from random_rule_table_run [OF assms, of r lambda_val strong_quiescence True rnd]
  obtain st' q lam where
    res: "random_rule_table k r lambda_val quiescent_state strong_quiescence True rnd
        = Inr (table st',
               round_double (of_int (k ^ ?m - int (quiescent_entries q (table st')))
                 / of_int (k ^ ?m)), q)"
    and loop: "table_loop k q lam strong_quiescence True
          (filter (\<lambda>x. x \<noteq> q) (map int [0..<nat k])) rnd ?states ?init = Inr st'"
    and ks: "map fst (table st') = ?states"
    by blast
  have nq: "q \<notin> set (filter (\<lambda>x. x \<noteq> q) (map int [0..<nat k]))" by simp
  have d: "distinct ?states" using b by (rule digit_strings_distinct)
  have e: "set ?states \<inter> fst ` set (table ?init) = {}" by simp
  have s0: "mirror_symmetric (table ?init)" by (simp add: mirror_symmetric_def)
  have "set (map fst (table st')) = set ?states" by (simp only: ks)
  also have "\<dots> = neighbourhood_strings (nat k) ?m"
    using b by (rule digit_strings_set)
  finally have keys: "fst ` set (table st') = neighbourhood_strings (nat k) ?m"
    by (simp only: set_map)
  have sym: "mirror_symmetric (table st')"
    using table_loop_symmetric [OF loop nq d e s0] .
  have "rev s \<in> neighbourhood_strings (nat k) ?m
      \<and> (\<exists>v. map_of (table st') s = Some v \<and> map_of (table st') (rev s) = Some v)"
    if s: "s \<in> neighbourhood_strings (nat k) ?m" for s
  proof -
    have r: "rev s \<in> neighbourhood_strings (nat k) ?m"
      using s by (rule neighbourhood_strings_rev)
    from s keys have "s \<in> fst ` set (table st')" by simp
    then obtain v where v: "map_of (table st') s = Some v"
      by (metis map_of_eq_None_iff not_Some_eq)
    from r keys have "rev s \<in> fst ` set (table st')" by simp
    then obtain w where w: "map_of (table st') (rev s) = Some w"
      by (metis map_of_eq_None_iff not_Some_eq)
    from sym v w have "w = v" unfolding mirror_symmetric_def by blast
    with r v w show ?thesis by simp
  qed
  with res keys show ?thesis by blast
qed

theorem random_rule_table_isotropic_witness:
  "\<exists>t lam q.
      random_rule_table 2 1 None (Some 0) True True fixed_source = Inr (t, lam, q)
    \<and> fst ` set t = neighbourhood_strings (nat 2) (2 * 1 + 1)
    \<and> (\<forall>s\<in>neighbourhood_strings (nat 2) (2 * 1 + 1).
          rev s \<in> neighbourhood_strings (nat 2) (2 * 1 + 1)
        \<and> (\<exists>v. map_of t s = Some v \<and> map_of t (rev s) = Some v))"
  by (rule random_rule_table_isotropic) (simp_all add: valid_quiescent_def)



lemma fixed_source_example:
  "random_rule_table 2 1 None (Some 0) False True fixed_source
     = Inr ([(''000'', 0), (''001'', 1), (''010'', 0), (''011'', 1),
             (''100'', 1), (''101'', 0), (''110'', 1), (''111'', 1)], 5 / 8, 0)"
  by code_simp

lemma rounded_quotient_example:
  "int_true_div 13 27 = Inr (8673599282343177 / 18014398509481984)"
  by code_simp

end
